theory Spec2Isabelle
  imports Main "HOL-Library.Sublist"
begin

section \<open>Python strings\<close>

text \<open>
  A Python \<open>str\<close> is a sequence of code points. It is modelled as a \<open>string\<close> with one
  \<open>char\<close> per code point, which covers the code points U+0000 to U+00FF. The character
  classes below are the ones of CPython on that range: \<open>str.isspace\<close> and the regular
  expression class \<open>\s\<close> agree there, \<open>\d\<close> is the ten ASCII digits, and \<open>str.lower\<close>
  maps each character to one character.
\<close>

definition isspace :: "char \<Rightarrow> bool" where
  "isspace c \<longleftrightarrow>
     c \<in> set [CHR 0x09, CHR 0x0A, CHR 0x0B, CHR 0x0C, CHR 0x0D, CHR 0x1C, CHR 0x1D,
              CHR 0x1E, CHR 0x1F, CHR 0x20, CHR 0x85, CHR 0xA0]"

definition isdigit :: "char \<Rightarrow> bool" where
  "isdigit c \<longleftrightarrow> c \<in> set ''0123456789''"

definition lower_char :: "char \<Rightarrow> char" where
  \<comment> \<open>the lower-case letter is 32 above the upper-case one: bit 5, clear on both ranges, is set\<close>
  "lower_char c =
     (let n = (of_char c :: nat)
      in if (65 \<le> n \<and> n \<le> 90) \<or> (192 \<le> n \<and> n \<le> 222 \<and> n \<noteq> 215)
         then (case c of Char b0 b1 b2 b3 b4 b5 b6 b7 \<Rightarrow> Char b0 b1 b2 b3 b4 True b6 b7)
         else c)"

definition lower :: "string \<Rightarrow> string" where
  \<comment> \<open>\<open>s.lower()\<close>\<close>
  "lower s = map lower_char s"

definition strip :: "string \<Rightarrow> string" where
  \<comment> \<open>\<open>s.strip()\<close>\<close>
  "strip s = rev (dropWhile isspace (rev (dropWhile isspace s)))"

definition rstrip_newlines :: "string \<Rightarrow> string" where
  \<comment> \<open>\<open>line.rstrip("\n\r")\<close>\<close>
  "rstrip_newlines s = rev (dropWhile (\<lambda>c. c = CHR 0x0A \<or> c = CHR 0x0D) (rev s))"

section \<open>FilterRule\<close>

datatype error =
    InvalidRegexPattern string   \<comment> \<open>\<open>ValueError(f"Invalid regex pattern '{pattern}': {e}")\<close>\<close>
  | UnknownMatchType string      \<comment> \<open>\<open>ValueError(f"Unknown match type: {self.match_type}")\<close>\<close>
  | NoCompiledRegex              \<comment> \<open>\<open>AttributeError\<close>: \<open>None\<close> has no \<open>search\<close>\<close>
  | UncaughtCompileError string  \<comment> \<open>an exception of \<open>re.compile\<close> that \<open>__init__\<close> does not catch\<close>

text \<open>
  A compiled regular expression is represented by its \<open>search\<close> method, a predicate on
  the text. Python's \<open>re.compile\<close> is a parameter of the constructor: it takes the
  pattern and whether the match is case sensitive (\<open>flags = 0\<close>) or not
  (\<open>flags = re.IGNORECASE\<close>). It returns the compiled expression, or raises \<open>re.error\<close>,
  or raises another exception, named by its class (\<open>OverflowError\<close> for the pattern
  \<open>a{4294967296}\<close>, \<open>RecursionError\<close> for deep nesting). The constructor catches
  \<open>re.error\<close> only.
\<close>

type_synonym compiled_regex = "string \<Rightarrow> bool"

datatype compile_result = Compiled compiled_regex | ReError | OtherException string

type_synonym re_compile = "string \<Rightarrow> bool \<Rightarrow> compile_result"

record FilterRule =
  pattern :: string
  match_type :: string
  case_sensitive :: bool
  compiled_regex :: "compiled_regex option"

definition FilterRule_init :: "re_compile \<Rightarrow> string \<Rightarrow> string \<Rightarrow> bool \<Rightarrow> error + FilterRule" where
  "FilterRule_init compile pat mtype csens =
     (let mt = lower mtype
      in if mt = ''regex''
         then (case compile pat csens of
                 Compiled rx \<Rightarrow> Inr \<lparr>pattern = pat, match_type = mt, case_sensitive = csens,
                                    compiled_regex = Some rx\<rparr>
               | ReError \<Rightarrow> Inl (InvalidRegexPattern pat)
               | OtherException name \<Rightarrow> Inl (UncaughtCompileError name))
         else Inr \<lparr>pattern = pat, match_type = mt, case_sensitive = csens,
                   compiled_regex = None\<rparr>)"

definition matches :: "FilterRule \<Rightarrow> string \<Rightarrow> error + bool" where
  "matches rule command =
     (let text = (if case_sensitive rule then command else lower command);
          pat = (if case_sensitive rule then pattern rule else lower (pattern rule))
      in if match_type rule = ''exact'' then Inr (text = pat)
         else if match_type rule = ''contains'' then Inr (sublist pat text)
         else if match_type rule = ''starts_with'' then Inr (prefix pat text)
         else if match_type rule = ''ends_with'' then Inr (suffix pat text)
         else if match_type rule = ''regex''
              then (case compiled_regex rule of
                      None \<Rightarrow> Inl NoCompiledRegex
                    | Some rx \<Rightarrow> Inr (rx command))
         else Inl (UnknownMatchType (match_type rule)))"

section \<open>Parsing a history entry\<close>

text \<open>
  \<open>re.match(r"^: (\d+:\d+);(.*)$", line)\<close>, written out. The two \<open>\d+\<close> take the
  longest runs of digits (a shorter run is followed by a digit, never by \<open>:\<close> or \<open>;\<close>).
  Without \<open>re.DOTALL\<close> the dot matches every character but the newline, and without
  \<open>re.MULTILINE\<close> the \<open>$\<close> matches at the end of the string and before a newline that
  is its last character: so \<open>(.*)\<close> is the text up to the first newline, and the match
  succeeds when nothing, or that one newline, follows it.
\<close>

definition parse_history_entry :: "string \<Rightarrow> (string \<times> string) option" where
  "parse_history_entry line =
     (if prefix '': '' line then
        (let rest = drop 2 line;
             d1 = takeWhile isdigit rest; r1 = dropWhile isdigit rest
         in if d1 \<noteq> [] \<and> prefix '':'' r1 then
              (let r2 = drop 1 r1;
                   d2 = takeWhile isdigit r2; r3 = dropWhile isdigit r2
               in if d2 \<noteq> [] \<and> prefix '';'' r3 then
                    (let r4 = drop 1 r3;
                         command = takeWhile (\<lambda>c. c \<noteq> CHR 0x0A) r4;
                         after = dropWhile (\<lambda>c. c \<noteq> CHR 0x0A) r4
                     in if after = [] \<or> after = [CHR 0x0A]
                        then Some (d1 @ '':'' @ d2, command)
                        else None)
                  else None)
            else None)
      else None)"

definition format_entry :: "string \<Rightarrow> string \<Rightarrow> string" where
  \<comment> \<open>\<open>f": {timestamp_part};{command}"\<close>\<close>
  "format_entry timestamp_part command = '': '' @ timestamp_part @ '';'' @ command"


section \<open>The cleaner\<close>

text \<open>
  The object state of \<open>ZshHistoryCleaner\<close> that the processing reads and writes. The
  entries of the dictionary \<open>self.stats\<close> are fields of the record; the counters are
  Python integers.
\<close>

record ZshHistoryCleaner =
  max_command_length :: int
  ignore_rules :: "FilterRule list"
  allow_rules :: "FilterRule list"
  seen_commands :: "string set"
  cleaned_entries :: "string list"
  total_lines :: int
  valid_entries :: int
  duplicates_removed :: int
  too_long_removed :: int
  malformed_removed :: int
  ignored_kept :: int
  allowed_removed :: int
  pattern_removed :: int
  final_entries :: int

definition ZshHistoryCleaner_init :: "int \<Rightarrow> FilterRule list \<Rightarrow> FilterRule list \<Rightarrow> ZshHistoryCleaner" where
  \<comment> \<open>\<open>__init__\<close>, with the rule lists that \<open>load_config\<close> has built\<close>
  "ZshHistoryCleaner_init max_length ignores allows =
     \<lparr>max_command_length = max_length, ignore_rules = ignores, allow_rules = allows,
      seen_commands = {}, cleaned_entries = [],
      total_lines = 0, valid_entries = 0, duplicates_removed = 0, too_long_removed = 0,
      malformed_removed = 0, ignored_kept = 0, allowed_removed = 0, pattern_removed = 0,
      final_entries = 0\<rparr>"

fun any_rule_matches :: "FilterRule list \<Rightarrow> string \<Rightarrow> error + bool" where
  \<comment> \<open>\<open>for rule in rules: if rule.matches(command): return True\<close>, then \<open>return False\<close>\<close>
  "any_rule_matches [] command = Inr False"
| "any_rule_matches (rule # rules) command =
     (case matches rule command of
        Inl e \<Rightarrow> Inl e
      | Inr b \<Rightarrow> if b then Inr True else any_rule_matches rules command)"

definition check_ignore_rules :: "ZshHistoryCleaner \<Rightarrow> string \<Rightarrow> error + bool" where
  "check_ignore_rules self command = any_rule_matches (ignore_rules self) command"

definition check_allow_rules :: "ZshHistoryCleaner \<Rightarrow> string \<Rightarrow> error + bool" where
  "check_allow_rules self command = any_rule_matches (allow_rules self) command"

subsection \<open>The fixed patterns of \<open>is_command_worth_keeping\<close>\<close>

fun has_run :: "(char \<Rightarrow> bool) \<Rightarrow> nat \<Rightarrow> string \<Rightarrow> bool" where
  \<comment> \<open>\<open>re.search\<close> of \<open>X{n,}\<close> for a character class \<open>X\<close>: somewhere at least \<open>n\<close> of them in a row\<close>
  "has_run P n [] = (n = 0)"
| "has_run P n (c # cs) = (n \<le> length (takeWhile P (c # cs)) \<or> has_run P n cs)"

fun has_bracket_run :: "string \<Rightarrow> bool" where
  \<comment> \<open>\<open>re.search(r"\[.*\]{3,}", s)\<close>: a \<open>[\<close>, then on the same line three \<open>]\<close> in a row\<close>
  "has_bracket_run [] = False"
| "has_bracket_run (c # cs) =
     ((c = CHR ''['' \<and> sublist '']]]'' (takeWhile (\<lambda>d. d \<noteq> CHR 0x0A) cs))
      \<or> has_bracket_run cs)"

fun has_repeat :: "nat \<Rightarrow> string \<Rightarrow> bool" where
  \<comment> \<open>\<open>re.search(r"(.)\1{n,}", s)\<close>: a character other than the newline, then itself \<open>n\<close> times or more\<close>
  "has_repeat n [] = False"
| "has_repeat n (c # cs) =
     ((c \<noteq> CHR 0x0A \<and> n \<le> length (takeWhile (\<lambda>d. d = c) cs)) \<or> has_repeat n cs)"

definition repetitive_patterns :: "(string \<Rightarrow> bool) list" where
  "repetitive_patterns =
     [has_run (\<lambda>c. c = CHR ''-'') 20,
      has_run (\<lambda>c. c = CHR ''='') 20,
      has_bracket_run,
      has_run isspace 10,
      has_repeat 15]"

definition is_command_worth_keeping :: "ZshHistoryCleaner \<Rightarrow> string \<Rightarrow> error + (bool \<times> string)" where
  "is_command_worth_keeping self command0 =
     (let command = strip command0
      in if command = [] then Inr (False, ''empty'')
         else case check_allow_rules self command of
                Inl e \<Rightarrow> Inl e
              | Inr allow \<Rightarrow>
                  if allow then Inr (False, ''allow_rule_match'')
                  else case check_ignore_rules self command of
                         Inl e \<Rightarrow> Inl e
                       | Inr ignore \<Rightarrow>
                           if ignore then Inr (True, ''ignore_rule_match'')
                           else if int (length command) > max_command_length self
                                then Inr (False, ''too_long'')
                           else if list_ex (\<lambda>search. search command) repetitive_patterns
                                then Inr (False, ''repetitive_pattern'')
                           else Inr (True, []))"

subsection \<open>\<open>normalize_command\<close>\<close>

function collapse_whitespace :: "string \<Rightarrow> string" where
  \<comment> \<open>\<open>re.sub(r"\s+", " ", s)\<close>\<close>
  "collapse_whitespace [] = []"
| "collapse_whitespace (c # cs) =
     (if isspace c then CHR '' '' # collapse_whitespace (dropWhile isspace cs)
      else c # collapse_whitespace cs)"
  by pat_completeness auto
termination
  by (relation "measure length") (auto simp: le_imp_less_Suc length_dropWhile_le)

text \<open>
  \<open>re.sub(r"\\\s*\n\s*", " ", s)\<close>: the match at a backslash takes the whole run of
  white space after it, provided the run holds a newline.
\<close>

function join_continuations :: "string \<Rightarrow> string" where
  "join_continuations [] = []"
| "join_continuations (c # cs) =
     (if c = CHR 0x5C \<and> CHR 0x0A \<in> set (takeWhile isspace cs)
      then CHR '' '' # join_continuations (dropWhile isspace cs)
      else c # join_continuations cs)"
  by pat_completeness auto
termination
  by (relation "measure length") (auto simp: le_imp_less_Suc length_dropWhile_le)

fun drop_trailing_backslash :: "string \<Rightarrow> string" where
  \<comment> \<open>\<open>re.sub(r"\\\s*$", "", s)\<close>: the first backslash that only white space follows, and that white space\<close>
  "drop_trailing_backslash [] = []"
| "drop_trailing_backslash (c # cs) =
     (if c = CHR 0x5C \<and> list_all isspace cs then []
      else c # drop_trailing_backslash cs)"

definition normalize_command :: "string \<Rightarrow> string" where
  "normalize_command command =
     drop_trailing_backslash (join_continuations (collapse_whitespace (strip command)))"

subsection \<open>\<open>_process_entry\<close>\<close>

text \<open>
  The branch that \<open>_process_entry\<close> takes is returned with the new state; the source
  tells the branches apart by the message it logs and the counter it increments.
  \<open>Removed reason\<close> carries the reason string of \<open>is_command_worth_keeping\<close>.
\<close>

datatype DecisionReason =
    Malformed | AllowRuleMatch | IgnoreRuleMatch | TooLong | Removed string | Duplicate | Kept

definition process_entry :: "ZshHistoryCleaner \<Rightarrow> string \<Rightarrow> error + (DecisionReason \<times> ZshHistoryCleaner)" where
  "process_entry self entry =
     (case parse_history_entry entry of
        None \<Rightarrow> Inr (Malformed, self\<lparr>malformed_removed := malformed_removed self + 1\<rparr>)
      | Some (timestamp_part, command) \<Rightarrow>
          (let self1 = self\<lparr>valid_entries := valid_entries self + 1\<rparr>
           in case check_allow_rules self1 command of
                Inl e \<Rightarrow> Inl e
              | Inr allow \<Rightarrow>
                  if allow
                  then Inr (AllowRuleMatch, self1\<lparr>allowed_removed := allowed_removed self1 + 1\<rparr>)
                  else case check_ignore_rules self1 command of
                         Inl e \<Rightarrow> Inl e
                       | Inr ignore \<Rightarrow>
                           if ignore
                           then Inr (IgnoreRuleMatch,
                                     self1\<lparr>ignored_kept := ignored_kept self1 + 1,
                                            seen_commands := insert (normalize_command command) (seen_commands self1),
                                            cleaned_entries := cleaned_entries self1 @ [format_entry timestamp_part command]\<rparr>)
                           else case is_command_worth_keeping self1 command of
                                  Inl e \<Rightarrow> Inl e
                                | Inr (keep, reason) \<Rightarrow>
                                    if \<not> keep then
                                      (if reason = ''too_long''
                                       then Inr (TooLong, self1\<lparr>too_long_removed := too_long_removed self1 + 1\<rparr>)
                                       else Inr (Removed reason, self1\<lparr>pattern_removed := pattern_removed self1 + 1\<rparr>))
                                    else if normalize_command command \<in> seen_commands self1
                                    then Inr (Duplicate, self1\<lparr>duplicates_removed := duplicates_removed self1 + 1\<rparr>)
                                    else Inr (Kept,
                                              self1\<lparr>seen_commands := insert (normalize_command command) (seen_commands self1),
                                                     cleaned_entries := cleaned_entries self1 @ [format_entry timestamp_part command]\<rparr>)))"

subsection \<open>\<open>process_history\<close>\<close>

definition is_entry_start :: "string \<Rightarrow> bool" where
  \<comment> \<open>\<open>line.startswith(": ") and ":" in line and ";" in line\<close>\<close>
  "is_entry_start line \<longleftrightarrow> prefix '': '' line \<and> CHR '':'' \<in> set line \<and> CHR '';'' \<in> set line"

text \<open>
  The loop over the lines, with the entry under construction \<open>current_entry\<close> and the
  object state threaded through. An exception raised in \<open>_process_entry\<close> leaves the loop.
\<close>

fun process_lines :: "string list \<Rightarrow> string \<Rightarrow> ZshHistoryCleaner \<Rightarrow> error + (string \<times> ZshHistoryCleaner)" where
  "process_lines [] current_entry self = Inr (current_entry, self)"
| "process_lines (l # ls) current_entry self =
     (let line = rstrip_newlines l
      in if is_entry_start line then
           (if current_entry \<noteq> [] then
              (case process_entry self current_entry of
                 Inl e \<Rightarrow> Inl e
               | Inr (d, self') \<Rightarrow> process_lines ls line self')
            else process_lines ls line self)
         else
           (if current_entry \<noteq> [] then process_lines ls (current_entry @ [CHR 0x0A] @ line) self
            else process_lines ls current_entry
                   (self\<lparr>malformed_removed := malformed_removed self + 1\<rparr>)))"

text \<open>
  \<open>process_history\<close> on the lines that \<open>readlines\<close> returned. \<open>Inr\<close> is the state at
  \<open>return True\<close>; \<open>Inl\<close> is the exception that the source catches before \<open>return False\<close>.
\<close>

definition process_history :: "ZshHistoryCleaner \<Rightarrow> string list \<Rightarrow> error + ZshHistoryCleaner" where
  "process_history self0 lines =
     (let self = self0\<lparr>total_lines := int (length lines)\<rparr>
      in case process_lines lines [] self of
           Inl e \<Rightarrow> Inl e
         | Inr (current_entry, self1) \<Rightarrow>
             (case (if current_entry \<noteq> [] then process_entry self1 current_entry
                    else Inr (Kept, self1)) of
                Inl e \<Rightarrow> Inl e
              | Inr (d, self2) \<Rightarrow>
                  Inr (self2\<lparr>final_entries := int (length (cleaned_entries self2))\<rparr>)))"

definition write_cleaned_history :: "ZshHistoryCleaner \<Rightarrow> string list" where
  \<comment> \<open>the lines written: \<open>f.write(entry + "\n")\<close> for each cleaned entry\<close>
  "write_cleaned_history self = map (\<lambda>entry. entry @ [CHR 0x0A]) (cleaned_entries self)"

subsection \<open>The entries that the loop processes\<close>

text \<open>
  The loop of \<open>process_history\<close> calls \<open>_process_entry\<close> on one entry blob after the
  other. \<open>entry_blobs\<close> is the list of these blobs, in the order of the calls, the last
  one being the entry flushed after the loop; \<open>orphaned_lines\<close> counts the lines met
  before the first entry starts; \<open>run_entries\<close> is the sequence of calls.
\<close>

fun entry_blobs :: "string list \<Rightarrow> string \<Rightarrow> string list" where
  "entry_blobs [] current_entry = (if current_entry \<noteq> [] then [current_entry] else [])"
| "entry_blobs (l # ls) current_entry =
     (let line = rstrip_newlines l
      in if is_entry_start line then
           (if current_entry \<noteq> [] then current_entry # entry_blobs ls line
            else entry_blobs ls line)
         else
           (if current_entry \<noteq> [] then entry_blobs ls (current_entry @ [CHR 0x0A] @ line)
            else entry_blobs ls current_entry))"

fun orphaned_lines :: "string list \<Rightarrow> nat" where
  "orphaned_lines [] = 0"
| "orphaned_lines (l # ls) =
     (if is_entry_start (rstrip_newlines l) then 0 else Suc (orphaned_lines ls))"

fun run_entries :: "ZshHistoryCleaner \<Rightarrow> string list \<Rightarrow> error + ZshHistoryCleaner" where
  "run_entries self [] = Inr self"
| "run_entries self (entry # entries) =
     (case process_entry self entry of
        Inl e \<Rightarrow> Inl e
      | Inr (d, self') \<Rightarrow> run_entries self' entries)"

definition flush_last :: "string \<Rightarrow> ZshHistoryCleaner \<Rightarrow> error + ZshHistoryCleaner" where
  \<comment> \<open>after the loop: \<open>if current_entry: self._process_entry(current_entry)\<close>\<close>
  "flush_last current_entry self =
     (if current_entry \<noteq> [] then
        (case process_entry self current_entry of
           Inl e \<Rightarrow> Inl e
         | Inr (d, self') \<Rightarrow> Inr self')
      else Inr self)"

subsection \<open>Rules and inputs of the examples\<close>

definition keep_git_commit :: FilterRule where
  \<comment> \<open>the first rule of the default \<open>ignore_list\<close>\<close>
  "keep_git_commit =
     \<lparr>pattern = ''git commit'', match_type = ''starts_with'', case_sensitive = False,
      compiled_regex = None\<rparr>"

definition remove_exists_in_filesystem :: FilterRule where
  \<comment> \<open>the third rule of the default \<open>allow_list\<close>\<close>
  "remove_exists_in_filesystem =
     \<lparr>pattern = ''exists in filesystem'', match_type = ''contains'', case_sensitive = False,
      compiled_regex = None\<rparr>"

definition keep_blank :: FilterRule where
  "keep_blank =
     \<lparr>pattern = '' '', match_type = ''contains'', case_sensitive = False,
      compiled_regex = None\<rparr>"

definition no_regex :: re_compile where
  \<comment> \<open>stands for \<open>re.compile\<close> where no pattern compiles\<close>
  "no_regex pat csens = ReError"

definition continued_input :: "string list" where
  \<comment> \<open>two lines: an entry ending in a backslash, and its continuation\<close>
  "continued_input = ['': 5:0;echo '' @ [CHR 0x5C, CHR 0x0A], '': not-a-new-entry\<newline>'']"

definition continued_blob :: string where
  \<comment> \<open>the entry blob that the loop builds from them\<close>
  "continued_blob = '': 5:0;echo '' @ [CHR 0x5C, CHR 0x0A] @ '': not-a-new-entry''"

subsection \<open>The accounting of the counters, as a predicate\<close>

definition accounted :: "ZshHistoryCleaner \<Rightarrow> bool" where
  \<comment> \<open>every valid entry is in the output or counted by one removal counter\<close>
  "accounted self \<longleftrightarrow>
     int (length (cleaned_entries self)) =
       valid_entries self - allowed_removed self - too_long_removed self
         - pattern_removed self - duplicates_removed self"

subsection \<open>Notions for a second pass over the output\<close>

text \<open>
  Notions for the run of \<open>process_history\<close> on the lines that an earlier run wrote.
  \<open>stable_line\<close>: a written entry comes back from the loop as one entry blob, and parses
  to the timestamp and command it was formatted from. \<open>survives\<close>: the checks of
  \<open>_process_entry\<close> keep the entry, given the set of normalized commands seen so far.
\<close>

definition entry_command :: "string \<Rightarrow> string" where
  "entry_command entry =
     (case parse_history_entry entry of Some (ts, command) \<Rightarrow> command | None \<Rightarrow> [])"

definition stable_line :: "string \<Rightarrow> bool" where
  "stable_line entry \<longleftrightarrow>
     is_entry_start entry \<and> rstrip_newlines (entry @ [CHR 0x0A]) = entry \<and>
     (\<exists>ts. parse_history_entry entry = Some (ts, entry_command entry) \<and>
           format_entry ts (entry_command entry) = entry)"

definition survives :: "ZshHistoryCleaner \<Rightarrow> string set \<Rightarrow> string \<Rightarrow> bool" where
  "survives self seen entry \<longleftrightarrow>
     stable_line entry \<and>
     check_allow_rules self (entry_command entry) = Inr False \<and>
     (check_ignore_rules self (entry_command entry) = Inr True \<or>
      (check_ignore_rules self (entry_command entry) = Inr False \<and>
       (\<exists>reason. is_command_worth_keeping self (entry_command entry) = Inr (True, reason)) \<and>
       normalize_command (entry_command entry) \<notin> seen))"

definition normalized_commands :: "string list \<Rightarrow> string set" where
  "normalized_commands entries = (\<lambda>entry. normalize_command (entry_command entry)) ` set entries"

fun all_survive :: "ZshHistoryCleaner \<Rightarrow> string set \<Rightarrow> string list \<Rightarrow> bool" where
  "all_survive self seen [] = True"
| "all_survive self seen (entry # entries) =
     (survives self seen entry \<and>
      all_survive self (insert (normalize_command (entry_command entry)) seen) entries)"

definition output_survives :: "ZshHistoryCleaner \<Rightarrow> bool" where
  \<comment> \<open>the invariant of a first run: its output so far would be kept again, in this order\<close>
  "output_survives self \<longleftrightarrow>
     all_survive self {} (cleaned_entries self) \<and>
     normalized_commands (cleaned_entries self) \<subseteq> seen_commands self"

definition no_trailing_cr :: "string \<Rightarrow> bool" where
  \<comment> \<open>no carriage return at the end or before a final newline: lines are stripped of both\<close>
  "no_trailing_cr blob \<longleftrightarrow>
     \<not> prefix [CHR 0x0D] (rev blob) \<and> \<not> prefix [CHR 0x0A, CHR 0x0D] (rev blob)"

subsection \<open>Rules that \<open>matches\<close> accepts\<close>

definition known_match_type :: "FilterRule \<Rightarrow> bool" where
  \<comment> \<open>one of the five match types, with the compiled expression of a \<open>regex\<close> rule\<close>
  "known_match_type rule \<longleftrightarrow>
     match_type rule \<in> set [''exact'', ''contains'', ''starts_with'', ''ends_with''] \<or>
     (match_type rule = ''regex'' \<and> compiled_regex rule \<noteq> None)"

definition known_rules :: "ZshHistoryCleaner \<Rightarrow> bool" where
  "known_rules self \<longleftrightarrow>
     list_all known_match_type (allow_rules self) \<and>
     list_all known_match_type (ignore_rules self)"

section \<open>Properties\<close>

subsection \<open>Rule checks\<close>

lemma check_allow_rules_cong:
  "allow_rules s = allow_rules t \<Longrightarrow> check_allow_rules s command = check_allow_rules t command"
  by (simp add: check_allow_rules_def)

lemma check_ignore_rules_cong:
  "ignore_rules s = ignore_rules t \<Longrightarrow> check_ignore_rules s command = check_ignore_rules t command"
  by (simp add: check_ignore_rules_def)

lemma is_command_worth_keeping_cong:
  assumes "allow_rules s = allow_rules t" and "ignore_rules s = ignore_rules t"
    and "max_command_length s = max_command_length t"
  shows "is_command_worth_keeping s command = is_command_worth_keeping t command"
proof -
  have a: "check_allow_rules s = check_allow_rules t"
    using assms(1) by (simp add: check_allow_rules_def fun_eq_iff)
  have i: "check_ignore_rules s = check_ignore_rules t"
    using assms(2) by (simp add: check_ignore_rules_def fun_eq_iff)
  show ?thesis
    unfolding is_command_worth_keeping_def a i assms(3) ..
qed

lemma check_allow_rules_valid [simp]:
  "check_allow_rules (self\<lparr>valid_entries := v\<rparr>) command = check_allow_rules self command"
  by (rule check_allow_rules_cong) simp

lemma check_ignore_rules_valid [simp]:
  "check_ignore_rules (self\<lparr>valid_entries := v\<rparr>) command = check_ignore_rules self command"
  by (rule check_ignore_rules_cong) simp

lemma is_command_worth_keeping_valid [simp]:
  "is_command_worth_keeping (self\<lparr>valid_entries := v\<rparr>) command =
   is_command_worth_keeping self command"
  by (rule is_command_worth_keeping_cong) simp_all

text \<open>
  When no rule of the list raises, the loop over the rules returns whether some rule
  matches.
\<close>

lemma any_rule_matches_total:
  "\<forall>rule\<in>set rules. \<exists>b. matches rule command = Inr b \<Longrightarrow>
   any_rule_matches rules command = Inr (\<exists>rule\<in>set rules. matches rule command = Inr True)"
  by (induction rules) auto

subsection \<open>The branches of \<open>_process_entry\<close>\<close>

lemma process_entry_Malformed:
  "parse_history_entry entry = None \<Longrightarrow>
   process_entry self entry =
     Inr (Malformed, self\<lparr>malformed_removed := malformed_removed self + 1\<rparr>)"
  by (simp add: process_entry_def)

lemma process_entry_AllowRuleMatch:
  assumes "parse_history_entry entry = Some (timestamp_part, command)"
    and "check_allow_rules self command = Inr True"
  shows "process_entry self entry =
           Inr (AllowRuleMatch,
                self\<lparr>valid_entries := valid_entries self + 1,
                      allowed_removed := allowed_removed self + 1\<rparr>)"
  using assms by (simp add: process_entry_def)

lemma process_entry_IgnoreRuleMatch:
  assumes "parse_history_entry entry = Some (timestamp_part, command)"
    and "check_allow_rules self command = Inr False"
    and "check_ignore_rules self command = Inr True"
  shows "process_entry self entry =
           Inr (IgnoreRuleMatch,
                self\<lparr>valid_entries := valid_entries self + 1,
                      ignored_kept := ignored_kept self + 1,
                      seen_commands := insert (normalize_command command) (seen_commands self),
                      cleaned_entries :=
                        cleaned_entries self @ [format_entry timestamp_part command]\<rparr>)"
  using assms by (simp add: process_entry_def)

lemma process_entry_not_kept:
  assumes "parse_history_entry entry = Some (timestamp_part, command)"
    and "check_allow_rules self command = Inr False"
    and "check_ignore_rules self command = Inr False"
    and "is_command_worth_keeping self command = Inr (False, reason)"
  shows "process_entry self entry =
           (if reason = ''too_long''
            then Inr (TooLong,
                      self\<lparr>valid_entries := valid_entries self + 1,
                            too_long_removed := too_long_removed self + 1\<rparr>)
            else Inr (Removed reason,
                      self\<lparr>valid_entries := valid_entries self + 1,
                            pattern_removed := pattern_removed self + 1\<rparr>))"
  using assms by (simp add: process_entry_def)

lemma process_entry_Duplicate:
  assumes "parse_history_entry entry = Some (timestamp_part, command)"
    and "check_allow_rules self command = Inr False"
    and "check_ignore_rules self command = Inr False"
    and "is_command_worth_keeping self command = Inr (True, reason)"
    and "normalize_command command \<in> seen_commands self"
  shows "process_entry self entry =
           Inr (Duplicate,
                self\<lparr>valid_entries := valid_entries self + 1,
                      duplicates_removed := duplicates_removed self + 1\<rparr>)"
  using assms by (simp add: process_entry_def)

lemma process_entry_Kept:
  assumes "parse_history_entry entry = Some (timestamp_part, command)"
    and "check_allow_rules self command = Inr False"
    and "check_ignore_rules self command = Inr False"
    and "is_command_worth_keeping self command = Inr (True, reason)"
    and "normalize_command command \<notin> seen_commands self"
  shows "process_entry self entry =
           Inr (Kept,
                self\<lparr>valid_entries := valid_entries self + 1,
                      seen_commands := insert (normalize_command command) (seen_commands self),
                      cleaned_entries :=
                        cleaned_entries self @ [format_entry timestamp_part command]\<rparr>)"
  using assms by (simp add: process_entry_def)

lemma is_command_worth_keeping_empty:
  "strip command = [] \<Longrightarrow> is_command_worth_keeping self command = Inr (False, ''empty'')"
  by (simp add: is_command_worth_keeping_def)


subsection \<open>Decisions on one entry\<close>

text \<open>
  C2. A parsed entry whose command matches a force-remove (allow) rule and a force-keep
  (ignore) rule is decided \<open>AllowRuleMatch\<close>: \<open>allowed_removed\<close> is incremented, nothing
  is appended to the output and \<open>ignored_kept\<close> stays, because the allow rules are
  checked first.
\<close>

theorem force_remove_precedence:
  assumes "parse_history_entry entry = Some (timestamp_part, command)"
    and "check_allow_rules self command = Inr True"
    and "check_ignore_rules self command = Inr True"
  shows "process_entry self entry =
           Inr (AllowRuleMatch,
                self\<lparr>valid_entries := valid_entries self + 1,
                      allowed_removed := allowed_removed self + 1\<rparr>)"
  using assms(1,2) by (rule process_entry_AllowRuleMatch)

theorem force_remove_precedence_witness:
  "parse_history_entry '': 5:0;git commit exists in filesystem''
     = Some (''5:0'', ''git commit exists in filesystem'')
   \<and> check_allow_rules
         (ZshHistoryCleaner_init 500 [keep_git_commit] [remove_exists_in_filesystem])
         ''git commit exists in filesystem'' = Inr True
   \<and> check_ignore_rules
         (ZshHistoryCleaner_init 500 [keep_git_commit] [remove_exists_in_filesystem])
         ''git commit exists in filesystem'' = Inr True
   \<and> process_entry
         (ZshHistoryCleaner_init 500 [keep_git_commit] [remove_exists_in_filesystem])
         '': 5:0;git commit exists in filesystem''
       = Inr (AllowRuleMatch,
              (ZshHistoryCleaner_init 500 [keep_git_commit] [remove_exists_in_filesystem])
                \<lparr>valid_entries := 1, allowed_removed := 1\<rparr>)"
proof -
  have p: "parse_history_entry '': 5:0;git commit exists in filesystem''
             = Some (''5:0'', ''git commit exists in filesystem'')"
    by code_simp
  have a: "check_allow_rules
             (ZshHistoryCleaner_init 500 [keep_git_commit] [remove_exists_in_filesystem])
             ''git commit exists in filesystem'' = Inr True"
    by code_simp
  have i: "check_ignore_rules
             (ZshHistoryCleaner_init 500 [keep_git_commit] [remove_exists_in_filesystem])
             ''git commit exists in filesystem'' = Inr True"
    by code_simp
  show ?thesis
    using p a i force_remove_precedence [OF p a i] by (simp add: ZshHistoryCleaner_init_def)
qed

text \<open>
  C6. A parsed entry whose command matches a force-keep rule and no force-remove rule is
  kept with reason \<open>IgnoreRuleMatch\<close>, whatever \<open>max_command_length\<close>, the fixed patterns
  and the set of seen commands are: none of the three is consulted.
\<close>

theorem force_keep_bypass:
  assumes "parse_history_entry entry = Some (timestamp_part, command)"
    and "check_allow_rules self command = Inr False"
    and "check_ignore_rules self command = Inr True"
  shows "process_entry self entry =
           Inr (IgnoreRuleMatch,
                self\<lparr>valid_entries := valid_entries self + 1,
                      ignored_kept := ignored_kept self + 1,
                      seen_commands := insert (normalize_command command) (seen_commands self),
                      cleaned_entries :=
                        cleaned_entries self @ [format_entry timestamp_part command]\<rparr>)"
  using assms by (rule process_entry_IgnoreRuleMatch)

theorem force_keep_bypass_witness:
  "parse_history_entry '': 5:0;git commit -m x'' = Some (''5:0'', ''git commit -m x'')
   \<and> check_allow_rules (ZshHistoryCleaner_init 1 [keep_git_commit] []) ''git commit -m x''
       = Inr False
   \<and> check_ignore_rules (ZshHistoryCleaner_init 1 [keep_git_commit] []) ''git commit -m x''
       = Inr True
   \<and> process_entry (ZshHistoryCleaner_init 1 [keep_git_commit] []) '': 5:0;git commit -m x''
       = Inr (IgnoreRuleMatch,
              (ZshHistoryCleaner_init 1 [keep_git_commit] [])
                \<lparr>valid_entries := 1, ignored_kept := 1,
                 seen_commands := {''git commit -m x''},
                 cleaned_entries := ['': 5:0;git commit -m x'']\<rparr>)"
proof -
  have p: "parse_history_entry '': 5:0;git commit -m x'' = Some (''5:0'', ''git commit -m x'')"
    by code_simp
  have a: "check_allow_rules (ZshHistoryCleaner_init 1 [keep_git_commit] []) ''git commit -m x''
             = Inr False"
    by code_simp
  have i: "check_ignore_rules (ZshHistoryCleaner_init 1 [keep_git_commit] []) ''git commit -m x''
             = Inr True"
    by code_simp
  have n: "normalize_command ''git commit -m x'' = ''git commit -m x''"
    by code_simp
  have f: "format_entry ''5:0'' ''git commit -m x'' = '': 5:0;git commit -m x''"
    by code_simp
  show ?thesis
    using p a i force_keep_bypass [OF p a i] by (simp add: ZshHistoryCleaner_init_def n f)
qed

text \<open>
  C3, as the code has it. The two rule checks of \<open>_process_entry\<close> come first, on the
  untrimmed command; a parsed entry that neither of them matches and whose command is
  empty after trimming is dropped with reason \<open>empty\<close>, counted in \<open>pattern_removed\<close>.
\<close>

theorem empty_after_rule_checks:
  assumes "parse_history_entry entry = Some (timestamp_part, command)"
    and "check_allow_rules self command = Inr False"
    and "check_ignore_rules self command = Inr False"
    and "strip command = []"
  shows "process_entry self entry =
           Inr (Removed ''empty'',
                self\<lparr>valid_entries := valid_entries self + 1,
                      pattern_removed := pattern_removed self + 1\<rparr>)"
  using process_entry_not_kept [OF assms(1-3) is_command_worth_keeping_empty [OF assms(4)]]
  by simp

theorem empty_after_rule_checks_witness:
  "parse_history_entry '': 5:0;   '' = Some (''5:0'', ''   '')
   \<and> check_allow_rules
         (ZshHistoryCleaner_init 500 [keep_git_commit] [remove_exists_in_filesystem]) ''   ''
       = Inr False
   \<and> check_ignore_rules
         (ZshHistoryCleaner_init 500 [keep_git_commit] [remove_exists_in_filesystem]) ''   ''
       = Inr False
   \<and> strip ''   '' = []
   \<and> process_entry
         (ZshHistoryCleaner_init 500 [keep_git_commit] [remove_exists_in_filesystem])
         '': 5:0;   ''
       = Inr (Removed ''empty'',
              (ZshHistoryCleaner_init 500 [keep_git_commit] [remove_exists_in_filesystem])
                \<lparr>valid_entries := 1, pattern_removed := 1\<rparr>)"
proof -
  have p: "parse_history_entry '': 5:0;   '' = Some (''5:0'', ''   '')"
    by code_simp
  have a: "check_allow_rules
             (ZshHistoryCleaner_init 500 [keep_git_commit] [remove_exists_in_filesystem]) ''   ''
             = Inr False"
    by code_simp
  have i: "check_ignore_rules
             (ZshHistoryCleaner_init 500 [keep_git_commit] [remove_exists_in_filesystem]) ''   ''
             = Inr False"
    by code_simp
  have s: "strip ''   '' = []"
    by code_simp
  show ?thesis
    using p a i s empty_after_rule_checks [OF p a i s]
    by (simp add: ZshHistoryCleaner_init_def)
qed

text \<open>
  C3 as stated fails: a command of three blanks is empty after trimming, and with the
  force-keep rule \<open>contains " "\<close> the entry is kept with reason \<open>IgnoreRuleMatch\<close>.
\<close>

theorem empty_decided_first_counterexample:
  "strip ''   '' = []
   \<and> process_entry (ZshHistoryCleaner_init 500 [keep_blank] []) '': 5:0;   ''
       = Inr (IgnoreRuleMatch,
              (ZshHistoryCleaner_init 500 [keep_blank] [])
                \<lparr>valid_entries := 1, ignored_kept := 1, seen_commands := {[]},
                 cleaned_entries := ['': 5:0;   '']\<rparr>)"
proof -
  have p: "parse_history_entry '': 5:0;   '' = Some (''5:0'', ''   '')"
    by code_simp
  have a: "check_allow_rules (ZshHistoryCleaner_init 500 [keep_blank] []) ''   '' = Inr False"
    by code_simp
  have i: "check_ignore_rules (ZshHistoryCleaner_init 500 [keep_blank] []) ''   '' = Inr True"
    by code_simp
  have n: "normalize_command ''   '' = []"
    by code_simp
  have f: "format_entry ''5:0'' ''   '' = '': 5:0;   ''"
    by code_simp
  have s: "strip ''   '' = []"
    by code_simp
  show ?thesis
    using s process_entry_IgnoreRuleMatch [OF p a i]
    by (simp add: ZshHistoryCleaner_init_def n f)
qed

subsection \<open>Construction of a rule\<close>

text \<open>
  The constructor fails for a \<open>regex\<close> rule only: with the error that names the
  pattern when \<open>re.compile\<close> raises \<open>re.error\<close>, and with the exception of \<open>re.compile\<close>
  itself, which does not name the pattern, when it raises another one.
\<close>

lemma FilterRule_init_failure:
  assumes "FilterRule_init compile pat mtype csens = Inl e"
  shows "lower mtype = ''regex'' \<and>
         ((compile pat csens = ReError \<and> e = InvalidRegexPattern pat) \<or>
          (\<exists>name. compile pat csens = OtherException name \<and> e = UncaughtCompileError name))"
  using assms
  by (auto simp: FilterRule_init_def Let_def split: compile_result.splits if_splits)

lemma FilterRule_init_uncaught:
  "lower mtype = ''regex'' \<Longrightarrow> compile pat csens = OtherException name \<Longrightarrow>
   FilterRule_init compile pat mtype csens = Inl (UncaughtCompileError name)"
  by (simp add: FilterRule_init_def)

text \<open>
  C5, as the code has it. The constructor does not look at the match type beyond
  lower-casing it: a rule with an unknown match type is constructed, and every call of
  \<open>matches\<close> on it raises the unknown-match-type error. On a constructed rule whose
  lower-cased match type is one of the five, \<open>matches\<close> returns a truth value: it
  raises no unknown-match-type error.
\<close>

theorem match_type_checked_at_call:
  "(lower mtype \<notin> set [''exact'', ''contains'', ''starts_with'', ''ends_with'', ''regex''] \<longrightarrow>
      (\<exists>rule. FilterRule_init compile pat mtype csens = Inr rule \<and>
              (\<forall>text. matches rule text = Inl (UnknownMatchType (lower mtype)))))
   \<and> (FilterRule_init compile pat mtype csens = Inr rule \<and>
        lower mtype \<in> set [''exact'', ''contains'', ''starts_with'', ''ends_with'', ''regex''] \<longrightarrow>
      (\<exists>b. matches rule text = Inr b))"
  by (auto simp: FilterRule_init_def matches_def Let_def
           split: compile_result.splits if_splits)

theorem match_type_checked_at_call_witness:
  "lower ''fuzzy'' \<notin> set [''exact'', ''contains'', ''starts_with'', ''ends_with'', ''regex'']
   \<and> (\<exists>rule. FilterRule_init no_regex ''ls'' ''fuzzy'' False = Inr rule \<and>
              (\<forall>text. matches rule text = Inl (UnknownMatchType (lower ''fuzzy''))))
   \<and> FilterRule_init no_regex ''ls'' ''Contains'' False
        = Inr \<lparr>pattern = ''ls'', match_type = ''contains'', case_sensitive = False,
               compiled_regex = None\<rparr>
   \<and> lower ''Contains'' \<in> set [''exact'', ''contains'', ''starts_with'', ''ends_with'', ''regex'']
   \<and> (\<exists>b. matches \<lparr>pattern = ''ls'', match_type = ''contains'', case_sensitive = False,
                    compiled_regex = None\<rparr> ''ls -la'' = Inr b)"
proof -
  have u: "lower ''fuzzy'' \<notin> set [''exact'', ''contains'', ''starts_with'', ''ends_with'', ''regex'']"
    by (simp add: lower_def lower_char_def)
  have k: "lower ''Contains'' \<in> set [''exact'', ''contains'', ''starts_with'', ''ends_with'', ''regex'']"
    by (simp add: lower_def lower_char_def)
  have c: "FilterRule_init no_regex ''ls'' ''Contains'' False
             = Inr \<lparr>pattern = ''ls'', match_type = ''contains'', case_sensitive = False,
                    compiled_regex = None\<rparr>"
    by (simp add: FilterRule_init_def lower_def lower_char_def)
  note t1 = match_type_checked_at_call [of "''fuzzy''" no_regex "''ls''" False]
  note t2 = match_type_checked_at_call [of "''Contains''" no_regex "''ls''" False
      "\<lparr>pattern = ''ls'', match_type = ''contains'', case_sensitive = False,
        compiled_regex = None\<rparr>" "''ls -la''"]
  from t1 u have g1: "\<exists>rule. FilterRule_init no_regex ''ls'' ''fuzzy'' False = Inr rule \<and>
      (\<forall>text. matches rule text = Inl (UnknownMatchType (lower ''fuzzy'')))"
    by blast
  from t2 c k have g2: "\<exists>b. matches \<lparr>pattern = ''ls'', match_type = ''contains'',
      case_sensitive = False, compiled_regex = None\<rparr> ''ls -la'' = Inr b"
    by blast
  show ?thesis
    using u g1 c k g2 by blast
qed

text \<open>
  C5 as stated fails: the constructor accepts the match type \<open>fuzzy\<close>, and the error is
  raised when \<open>matches\<close> is called.
\<close>

theorem unknown_match_type_counterexample:
  "FilterRule_init no_regex ''ls'' ''fuzzy'' False
     = Inr \<lparr>pattern = ''ls'', match_type = ''fuzzy'', case_sensitive = False,
            compiled_regex = None\<rparr>
   \<and> matches \<lparr>pattern = ''ls'', match_type = ''fuzzy'', case_sensitive = False,
               compiled_regex = None\<rparr> ''ls -la''
     = Inl (UnknownMatchType ''fuzzy'')"
  by (simp add: FilterRule_init_def matches_def lower_def lower_char_def)

subsection \<open>Round trip of a kept entry\<close>

lemma not_isdigit_punct [simp]: "\<not> isdigit CHR '':''" "\<not> isdigit CHR '';''"
  by (simp_all add: isdigit_def)

lemma parse_history_entry_SomeD:
  assumes "parse_history_entry line = Some (ts, cmd)"
  shows "\<exists>d1 d2. ts = d1 @ '':'' @ d2 \<and> d1 \<noteq> [] \<and> d2 \<noteq> [] \<and>
           (\<forall>c\<in>set d1. isdigit c) \<and> (\<forall>c\<in>set d2. isdigit c) \<and> CHR 0x0A \<notin> set cmd"
  using assms
  by (auto simp: parse_history_entry_def Let_def split: if_splits dest: set_takeWhileD)

lemma parse_format_entry:
  assumes "d1 \<noteq> []" and "d2 \<noteq> []" and "\<forall>c\<in>set d1. isdigit c" and "\<forall>c\<in>set d2. isdigit c"
    and "CHR 0x0A \<notin> set cmd"
  shows "parse_history_entry (format_entry (d1 @ '':'' @ d2) cmd) = Some (d1 @ '':'' @ d2, cmd)"
proof -
  have t1: "takeWhile isdigit (d1 @ CHR '':'' # d2 @ CHR '';'' # cmd) = d1"
    using assms(3) by (simp add: takeWhile_append2)
  have r1: "dropWhile isdigit (d1 @ CHR '':'' # d2 @ CHR '';'' # cmd)
              = CHR '':'' # d2 @ CHR '';'' # cmd"
    using assms(3) by (simp add: dropWhile_append2)
  have t2: "takeWhile isdigit (d2 @ CHR '';'' # cmd) = d2"
    using assms(4) by (simp add: takeWhile_append2)
  have r2: "dropWhile isdigit (d2 @ CHR '';'' # cmd) = CHR '';'' # cmd"
    using assms(4) by (simp add: dropWhile_append2)
  have t3: "takeWhile (\<lambda>c. c \<noteq> CHR 0x0A) cmd = cmd"
    using assms(5) by (auto simp: takeWhile_eq_all_conv)
  show ?thesis
    using assms(1,2,5)
    by (simp add: parse_history_entry_def format_entry_def t1 r1 t2 r2 t3)
qed

lemma parse_format_round_trip:
  assumes "parse_history_entry line = Some (ts, cmd)"
  shows "parse_history_entry (format_entry ts cmd) = Some (ts, cmd)"
proof -
  from parse_history_entry_SomeD [OF assms] obtain d1 d2
    where "ts = d1 @ '':'' @ d2" "d1 \<noteq> []" "d2 \<noteq> []"
      "\<forall>c\<in>set d1. isdigit c" "\<forall>c\<in>set d2. isdigit c" "CHR 0x0A \<notin> set cmd"
    by blast
  then show ?thesis
    using parse_format_entry by blast
qed

lemma process_entry_keptD:
  assumes "process_entry self entry = Inr (d, self')" and "d = Kept \<or> d = IgnoreRuleMatch"
  shows "\<exists>ts cmd. parse_history_entry entry = Some (ts, cmd) \<and>
           cleaned_entries self' = cleaned_entries self @ [format_entry ts cmd]"
  using assms
  by (auto simp: process_entry_def Let_def split: option.splits sum.splits if_splits)

text \<open>
  C9. An entry that \<open>_process_entry\<close> keeps is appended to the output as the line
  \<open>": " + timestamp_part + ";" + command\<close>, and parsing that line gives the
  \<open>timestamp_part\<close> and the \<open>command\<close> of the entry again.
\<close>

theorem kept_entry_round_trip:
  assumes "process_entry self entry = Inr (d, self')" and "d = Kept \<or> d = IgnoreRuleMatch"
  shows "\<exists>ts cmd. parse_history_entry entry = Some (ts, cmd) \<and>
           cleaned_entries self' = cleaned_entries self @ [format_entry ts cmd] \<and>
           parse_history_entry (format_entry ts cmd) = Some (ts, cmd)"
  using process_entry_keptD [OF assms] parse_format_round_trip by blast

theorem kept_entry_round_trip_witness:
  "process_entry (ZshHistoryCleaner_init 1 [keep_git_commit] []) '': 5:0;git commit -m x''
     = Inr (IgnoreRuleMatch,
            (ZshHistoryCleaner_init 1 [keep_git_commit] [])
              \<lparr>valid_entries := 1, ignored_kept := 1,
               seen_commands := {''git commit -m x''},
               cleaned_entries := ['': 5:0;git commit -m x'']\<rparr>)
   \<and> parse_history_entry '': 5:0;git commit -m x'' = Some (''5:0'', ''git commit -m x'')
   \<and> parse_history_entry (format_entry ''5:0'' ''git commit -m x'')
       = Some (''5:0'', ''git commit -m x'')"
proof -
  have p: "parse_history_entry '': 5:0;git commit -m x'' = Some (''5:0'', ''git commit -m x'')"
    by code_simp
  have a: "check_allow_rules (ZshHistoryCleaner_init 1 [keep_git_commit] []) ''git commit -m x''
             = Inr False"
    by code_simp
  have i: "check_ignore_rules (ZshHistoryCleaner_init 1 [keep_git_commit] []) ''git commit -m x''
             = Inr True"
    by code_simp
  have n: "normalize_command ''git commit -m x'' = ''git commit -m x''"
    by code_simp
  have f: "format_entry ''5:0'' ''git commit -m x'' = '': 5:0;git commit -m x''"
    by code_simp
  have e: "process_entry (ZshHistoryCleaner_init 1 [keep_git_commit] []) '': 5:0;git commit -m x''
     = Inr (IgnoreRuleMatch,
            (ZshHistoryCleaner_init 1 [keep_git_commit] [])
              \<lparr>valid_entries := 1, ignored_kept := 1,
               seen_commands := {''git commit -m x''},
               cleaned_entries := ['': 5:0;git commit -m x'']\<rparr>)"
    using process_entry_IgnoreRuleMatch [OF p a i]
    by (simp add: ZshHistoryCleaner_init_def n f)
  from kept_entry_round_trip [OF e] p show ?thesis
    using e by auto
qed


subsection \<open>Accounting of the counters\<close>

lemma process_entry_accounted:
  assumes "process_entry self entry = Inr (d, self')" and "accounted self"
  shows "accounted self'"
  using assms
  by (auto simp: process_entry_def accounted_def Let_def
           split: option.splits sum.splits if_splits)

lemma process_lines_accounted:
  "process_lines ls current_entry self = Inr (current_entry', self') \<Longrightarrow> accounted self \<Longrightarrow>
   accounted self'"
proof (induction ls arbitrary: current_entry self)
  case Nil
  then show ?case by simp
next
  case (Cons l ls)
  show ?case
  proof (cases "is_entry_start (rstrip_newlines l)")
    case start: True
    show ?thesis
    proof (cases "current_entry = []")
      case True
      with start Cons show ?thesis by simp
    next
      case False
      with start Cons.prems(1) obtain d self1
        where e: "process_entry self current_entry = Inr (d, self1)"
          and r: "process_lines ls (rstrip_newlines l) self1 = Inr (current_entry', self')"
        by (auto split: sum.splits)
      from process_entry_accounted [OF e Cons.prems(2)] Cons.IH [OF r] show ?thesis by blast
    qed
  next
    case cont: False
    show ?thesis
    proof (cases "current_entry = []")
      case True
      with cont Cons.prems(1)
      have r: "process_lines ls []
                 (self\<lparr>malformed_removed := malformed_removed self + 1\<rparr>)
               = Inr (current_entry', self')"
        by simp
      have "accounted (self\<lparr>malformed_removed := malformed_removed self + 1\<rparr>)"
        using Cons.prems(2) by (simp add: accounted_def)
      with Cons.IH [OF r] show ?thesis by blast
    next
      case False
      with cont Cons show ?thesis by simp
    qed
  qed
qed

text \<open>
  C10. At the end of a run of \<open>process_history\<close> on a new cleaner object,
  \<open>final_entries = valid_entries - allowed_removed - too_long_removed - pattern_removed
  - duplicates_removed\<close>; \<open>malformed_removed\<close> is not part of the equation.
\<close>

theorem statistics_accounting:
  assumes "process_history (ZshHistoryCleaner_init max_length ignores allows) lines = Inr self'"
  shows "final_entries self' =
           valid_entries self' - allowed_removed self' - too_long_removed self'
             - pattern_removed self' - duplicates_removed self'"
proof -
  let ?self = "(ZshHistoryCleaner_init max_length ignores allows)
                 \<lparr>total_lines := int (length lines)\<rparr>"
  have a0: "accounted ?self"
    by (simp add: accounted_def ZshHistoryCleaner_init_def)
  from assms obtain current_entry self1
    where l: "process_lines lines [] ?self = Inr (current_entry, self1)"
    by (auto simp: process_history_def Let_def split: sum.splits)
  have a1: "accounted self1"
    using process_lines_accounted [OF l a0] .
  from assms l obtain d self2
    where f: "(if current_entry \<noteq> [] then process_entry self1 current_entry
               else Inr (Kept, self1)) = Inr (d, self2)"
      and r: "self' = self2\<lparr>final_entries := int (length (cleaned_entries self2))\<rparr>"
    by (auto simp: process_history_def Let_def split: sum.splits)
  have "accounted self2"
    using f a1 process_entry_accounted by (auto split: if_splits)
  with r show ?thesis
    by (simp add: accounted_def)
qed


theorem statistics_accounting_witness:
  "process_history (ZshHistoryCleaner_init 500 [] [])
     ['': 111:0;echo hi\<newline>'', '': 111:0;echo hi\<newline>'']
     = Inr ((ZshHistoryCleaner_init 500 [] [])
             \<lparr>total_lines := 2, valid_entries := 2, duplicates_removed := 1,
              seen_commands := {''echo hi''}, cleaned_entries := ['': 111:0;echo hi''],
              final_entries := 1\<rparr>)
   \<and> final_entries ((ZshHistoryCleaner_init 500 [] [])
             \<lparr>total_lines := 2, valid_entries := 2, duplicates_removed := 1,
              seen_commands := {''echo hi''}, cleaned_entries := ['': 111:0;echo hi''],
              final_entries := 1\<rparr>) = 2 - 0 - 0 - 0 - 1"
proof -
  have r: "rstrip_newlines '': 111:0;echo hi\<newline>'' = '': 111:0;echo hi''"
    by code_simp
  have s: "is_entry_start '': 111:0;echo hi''"
    by code_simp
  have p: "parse_history_entry '': 111:0;echo hi'' = Some (''111:0'', ''echo hi'')"
    by code_simp
  have st: "strip ''echo hi'' = ''echo hi''"
    by code_simp
  have n: "normalize_command ''echo hi'' = ''echo hi''"
    by code_simp
  have f: "format_entry ''111:0'' ''echo hi'' = '': 111:0;echo hi''"
    by code_simp
  have x: "\<not> list_ex (\<lambda>search. search ''echo hi'') repetitive_patterns"
    by code_simp
  have run: "process_history (ZshHistoryCleaner_init 500 [] [])
     ['': 111:0;echo hi\<newline>'', '': 111:0;echo hi\<newline>'']
     = Inr ((ZshHistoryCleaner_init 500 [] [])
             \<lparr>total_lines := 2, valid_entries := 2, duplicates_removed := 1,
              seen_commands := {''echo hi''}, cleaned_entries := ['': 111:0;echo hi''],
              final_entries := 1\<rparr>)"
    using r s p st n f x
    by (simp add: process_history_def ZshHistoryCleaner_init_def process_entry_def
        check_allow_rules_def check_ignore_rules_def is_command_worth_keeping_def)
  from statistics_accounting [OF run] run show ?thesis
    by (simp add: ZshHistoryCleaner_init_def)
qed

subsection \<open>The loop as a sequence of entries\<close>

lemma is_entry_start_nonempty: "is_entry_start line \<Longrightarrow> line \<noteq> []"
  by (auto simp: is_entry_start_def)

lemma process_lines_run_open:
  "current_entry \<noteq> [] \<Longrightarrow>
   (case process_lines ls current_entry self of
      Inl e \<Rightarrow> Inl e
    | Inr (current_entry', self') \<Rightarrow> flush_last current_entry' self')
   = run_entries self (entry_blobs ls current_entry)"
proof (induction ls arbitrary: current_entry self)
  case Nil
  then show ?case
    by (simp add: flush_last_def split: sum.splits)
next
  case (Cons l ls)
  show ?case
  proof (cases "is_entry_start (rstrip_newlines l)")
    case True
    then have "rstrip_newlines l \<noteq> []"
      by (rule is_entry_start_nonempty)
    with True Cons.prems Cons.IH [of "rstrip_newlines l"] show ?thesis
      by (simp split: sum.splits)
  next
    case False
    with Cons.prems Cons.IH [of "current_entry @ [CHR 0x0A] @ rstrip_newlines l" self]
    show ?thesis by simp
  qed
qed

lemma process_lines_run:
  "(case process_lines ls [] self of
      Inl e \<Rightarrow> Inl e
    | Inr (current_entry', self') \<Rightarrow> flush_last current_entry' self')
   = run_entries
       (self\<lparr>malformed_removed := malformed_removed self + int (orphaned_lines ls)\<rparr>)
       (entry_blobs ls [])"
proof (induction ls arbitrary: self)
  case Nil
  show ?case
    by (simp add: flush_last_def)
next
  case (Cons l ls)
  show ?case
  proof (cases "is_entry_start (rstrip_newlines l)")
    case True
    then have "rstrip_newlines l \<noteq> []"
      by (rule is_entry_start_nonempty)
    from process_lines_run_open [OF this, of ls self] True show ?thesis
      by simp
  next
    case False
    have "self\<lparr>malformed_removed := malformed_removed self + 1 + int (orphaned_lines ls)\<rparr>
          = self\<lparr>malformed_removed := malformed_removed self + (1 + int (orphaned_lines ls))\<rparr>"
      by (simp add: add.assoc)
    with False Cons.IH [of "self\<lparr>malformed_removed := malformed_removed self + 1\<rparr>"]
    show ?thesis by simp
  qed
qed

text \<open>
  \<open>process_history\<close> is the sequence of calls of \<open>_process_entry\<close> on the entry blobs
  of the input, after the orphaned lines have been counted.
\<close>

lemma process_history_run_entries:
  "process_history self lines =
     (case run_entries
             (self\<lparr>total_lines := int (length lines),
                    malformed_removed := malformed_removed self + int (orphaned_lines lines)\<rparr>)
             (entry_blobs lines []) of
        Inl e \<Rightarrow> Inl e
      | Inr self' \<Rightarrow> Inr (self'\<lparr>final_entries := int (length (cleaned_entries self'))\<rparr>))"
proof -
  have "process_history self lines =
     (case (case process_lines lines [] (self\<lparr>total_lines := int (length lines)\<rparr>) of
              Inl e \<Rightarrow> Inl e
            | Inr (current_entry', self') \<Rightarrow> flush_last current_entry' self') of
        Inl e \<Rightarrow> Inl e
      | Inr self' \<Rightarrow> Inr (self'\<lparr>final_entries := int (length (cleaned_entries self'))\<rparr>))"
    by (simp add: process_history_def flush_last_def Let_def split: sum.splits)
  then show ?thesis
    by (simp add: process_lines_run)
qed

lemma run_entries_append:
  "run_entries self (xs @ ys) =
     (case run_entries self xs of Inl e \<Rightarrow> Inl e | Inr self' \<Rightarrow> run_entries self' ys)"
  by (induction xs arbitrary: self) (auto split: sum.splits)

lemma process_entry_config:
  assumes "process_entry self entry = Inr (d, self')"
  shows "allow_rules self' = allow_rules self \<and> ignore_rules self' = ignore_rules self
           \<and> max_command_length self' = max_command_length self"
  using assms
  by (auto simp: process_entry_def Let_def split: option.splits sum.splits if_splits)

lemma process_entry_seen_mono:
  assumes "process_entry self entry = Inr (d, self')"
  shows "seen_commands self \<subseteq> seen_commands self'"
  using assms
  by (auto simp: process_entry_def Let_def split: option.splits sum.splits if_splits)

lemma run_entries_seen_mono:
  "run_entries self entries = Inr self' \<Longrightarrow> seen_commands self \<subseteq> seen_commands self'"
proof (induction entries arbitrary: self)
  case Nil
  then show ?case by simp
next
  case (Cons entry entries)
  from Cons.prems obtain d self1
    where e: "process_entry self entry = Inr (d, self1)"
      and r: "run_entries self1 entries = Inr self'"
    by (auto split: sum.splits)
  from process_entry_seen_mono [OF e] Cons.IH [OF r] show ?case
    by blast
qed

lemma process_entry_kept_seen:
  assumes "process_entry self entry = Inr (d, self')" and "d = Kept \<or> d = IgnoreRuleMatch"
    and "parse_history_entry entry = Some (ts, command)"
  shows "normalize_command command \<in> seen_commands self'"
  using assms
  by (auto simp: process_entry_def Let_def split: option.splits sum.splits if_splits)

text \<open>
  C7. In a run over entry blobs, let an entry be kept (plainly or by a force-keep rule),
  and let a later entry have the same normalized command, match no force-remove and no
  force-keep rule and pass \<open>is_command_worth_keeping\<close>. The later entry is dropped as
  \<open>Duplicate\<close>: \<open>duplicates_removed\<close> is incremented and the output stays as it was.
  The run is the one of \<open>process_history\<close>, by \<open>process_history_run_entries\<close>.
\<close>

theorem later_duplicate_dropped:
  assumes "run_entries self0 before = Inr self1"
    and "process_entry self1 entry1 = Inr (d1, self2)" and "d1 = Kept \<or> d1 = IgnoreRuleMatch"
    and "parse_history_entry entry1 = Some (ts1, command1)"
    and "run_entries self2 between = Inr self3"
    and "parse_history_entry entry2 = Some (ts2, command2)"
    and "normalize_command command2 = normalize_command command1"
    and "check_allow_rules self3 command2 = Inr False"
    and "check_ignore_rules self3 command2 = Inr False"
    and "is_command_worth_keeping self3 command2 = Inr (True, reason)"
  shows "process_entry self3 entry2 =
           Inr (Duplicate,
                self3\<lparr>valid_entries := valid_entries self3 + 1,
                       duplicates_removed := duplicates_removed self3 + 1\<rparr>)
         \<and> run_entries self0 (before @ entry1 # between @ [entry2]) =
             Inr (self3\<lparr>valid_entries := valid_entries self3 + 1,
                        duplicates_removed := duplicates_removed self3 + 1\<rparr>)"
proof -
  have "normalize_command command1 \<in> seen_commands self2"
    using process_entry_kept_seen [OF assms(2,3,4)] .
  with run_entries_seen_mono [OF assms(5)] assms(7)
  have seen: "normalize_command command2 \<in> seen_commands self3"
    by auto
  have d: "process_entry self3 entry2 =
           Inr (Duplicate,
                self3\<lparr>valid_entries := valid_entries self3 + 1,
                       duplicates_removed := duplicates_removed self3 + 1\<rparr>)"
    using assms(6,8,9,10) seen by (rule process_entry_Duplicate)
  then show ?thesis
    using assms(1,2,5) by (simp add: run_entries_append)
qed


theorem later_duplicate_dropped_witness:
  "run_entries (ZshHistoryCleaner_init 500 [] []) [] = Inr (ZshHistoryCleaner_init 500 [] [])
   \<and> process_entry (ZshHistoryCleaner_init 500 [] []) '': 111:0;echo hi''
       = Inr (Kept, (ZshHistoryCleaner_init 500 [] [])
                      \<lparr>valid_entries := 1, seen_commands := {''echo hi''},
                       cleaned_entries := ['': 111:0;echo hi'']\<rparr>)
   \<and> parse_history_entry '': 111:0;echo hi'' = Some (''111:0'', ''echo hi'')
   \<and> parse_history_entry '': 222:0;echo   hi'' = Some (''222:0'', ''echo   hi'')
   \<and> normalize_command ''echo   hi'' = normalize_command ''echo hi''
   \<and> process_entry ((ZshHistoryCleaner_init 500 [] [])
                      \<lparr>valid_entries := 1, seen_commands := {''echo hi''},
                       cleaned_entries := ['': 111:0;echo hi'']\<rparr>) '': 222:0;echo   hi''
       = Inr (Duplicate, (ZshHistoryCleaner_init 500 [] [])
                      \<lparr>valid_entries := 2, duplicates_removed := 1,
                       seen_commands := {''echo hi''},
                       cleaned_entries := ['': 111:0;echo hi'']\<rparr>)
   \<and> run_entries (ZshHistoryCleaner_init 500 [] []) ['': 111:0;echo hi'', '': 222:0;echo   hi'']
       = Inr ((ZshHistoryCleaner_init 500 [] [])
                      \<lparr>valid_entries := 2, duplicates_removed := 1,
                       seen_commands := {''echo hi''},
                       cleaned_entries := ['': 111:0;echo hi'']\<rparr>)"
proof -
  let ?self0 = "ZshHistoryCleaner_init 500 [] []"
  let ?self2 = "?self0\<lparr>valid_entries := 1, seen_commands := {''echo hi''},
                       cleaned_entries := ['': 111:0;echo hi'']\<rparr>"
  have b: "run_entries ?self0 [] = Inr ?self0"
    by simp
  have p1: "parse_history_entry '': 111:0;echo hi'' = Some (''111:0'', ''echo hi'')"
    by code_simp
  have p2: "parse_history_entry '': 222:0;echo   hi'' = Some (''222:0'', ''echo   hi'')"
    by code_simp
  have a1: "check_allow_rules ?self0 ''echo hi'' = Inr False"
    by (simp add: check_allow_rules_def ZshHistoryCleaner_init_def)
  have i1: "check_ignore_rules ?self0 ''echo hi'' = Inr False"
    by (simp add: check_ignore_rules_def ZshHistoryCleaner_init_def)
  have w0: "is_command_worth_keeping ?self0 ''echo hi'' = Inr (True, [])"
    by code_simp
  have n1: "normalize_command ''echo hi'' = ''echo hi''"
    by code_simp
  have n2: "normalize_command ''echo   hi'' = normalize_command ''echo hi''"
    by code_simp
  have f: "format_entry ''111:0'' ''echo hi'' = '': 111:0;echo hi''"
    by code_simp
  have e1: "process_entry ?self0 '': 111:0;echo hi'' = Inr (Kept, ?self2)"
    using process_entry_Kept [OF p1 a1 i1 w0]
    by (simp add: ZshHistoryCleaner_init_def n1 f)
  have m: "run_entries ?self2 [] = Inr ?self2"
    by simp
  have a2: "check_allow_rules ?self2 ''echo   hi'' = Inr False"
    by (simp add: check_allow_rules_def ZshHistoryCleaner_init_def)
  have i2: "check_ignore_rules ?self2 ''echo   hi'' = Inr False"
    by (simp add: check_ignore_rules_def ZshHistoryCleaner_init_def)
  have w00: "is_command_worth_keeping ?self0 ''echo   hi'' = Inr (True, [])"
    by code_simp
  have w2: "is_command_worth_keeping ?self2 ''echo   hi'' = Inr (True, [])"
    using w00 is_command_worth_keeping_cong [of ?self2 ?self0 "''echo   hi''"] by simp
  have k: "Kept = Kept \<or> Kept = IgnoreRuleMatch"
    by simp
  from later_duplicate_dropped [OF b e1 k p1 m p2 n2 a2 i2 w2] b e1 p1 p2 n2
  show ?thesis
    by (simp add: ZshHistoryCleaner_init_def)
qed

subsection \<open>Runs that return\<close>

text \<open>
  With rules of known match types no call of \<open>matches\<close> raises, and \<open>process_history\<close>
  returns on every list of lines.
\<close>

lemma matches_returns:
  "known_match_type rule \<Longrightarrow> \<exists>b. matches rule command = Inr b"
  by (auto simp: known_match_type_def matches_def Let_def)

lemma any_rule_matches_returns:
  "list_all known_match_type rules \<Longrightarrow> \<exists>b. any_rule_matches rules command = Inr b"
proof (induction rules)
  case Nil
  show ?case by (rule exI [of _ False]) simp
next
  case (Cons rule rules)
  from Cons.prems matches_returns [of rule command] obtain b
    where m: "matches rule command = Inr b"
    by auto
  from Cons obtain b' where r: "any_rule_matches rules command = Inr b'"
    by auto
  have "any_rule_matches (rule # rules) command = Inr (if b then True else b')"
    by (simp add: m r)
  then show ?case
    by blast
qed

lemma is_command_worth_keeping_returns:
  assumes "known_rules self"
  shows "\<exists>keep reason. is_command_worth_keeping self command = Inr (keep, reason)"
proof -
  from assms obtain a where a: "check_allow_rules self (strip command) = Inr a"
    using any_rule_matches_returns [of "allow_rules self"]
    by (auto simp: known_rules_def check_allow_rules_def)
  from assms obtain i where i: "check_ignore_rules self (strip command) = Inr i"
    using any_rule_matches_returns [of "ignore_rules self"]
    by (auto simp: known_rules_def check_ignore_rules_def)
  show ?thesis
    by (simp add: is_command_worth_keeping_def Let_def a i) blast
qed

lemma process_entry_returns:
  assumes "known_rules self"
  shows "\<exists>d self'. process_entry self entry = Inr (d, self')"
proof (cases "parse_history_entry entry")
  case None
  then show ?thesis
    by (simp add: process_entry_def)
next
  case (Some p)
  obtain ts cmd where "p = (ts, cmd)"
    by (cases p)
  with Some have parsed: "parse_history_entry entry = Some (ts, cmd)"
    by simp
  from assms obtain a where a: "check_allow_rules self cmd = Inr a"
    using any_rule_matches_returns [of "allow_rules self"]
    by (auto simp: known_rules_def check_allow_rules_def)
  from assms obtain i where i: "check_ignore_rules self cmd = Inr i"
    using any_rule_matches_returns [of "ignore_rules self"]
    by (auto simp: known_rules_def check_ignore_rules_def)
  from is_command_worth_keeping_returns [OF assms] obtain keep reason
    where w: "is_command_worth_keeping self cmd = Inr (keep, reason)"
    by blast
  show ?thesis
    by (cases keep) (simp_all add: process_entry_def Let_def parsed a i w)
qed

lemma run_entries_returns:
  "known_rules self \<Longrightarrow> \<exists>self'. run_entries self entries = Inr self'"
proof (induction entries arbitrary: self)
  case Nil
  show ?case by simp
next
  case (Cons entry entries)
  from process_entry_returns [OF Cons.prems] obtain d self1
    where e: "process_entry self entry = Inr (d, self1)"
    by blast
  from process_entry_config [OF e] Cons.prems have "known_rules self1"
    by (simp add: known_rules_def)
  from Cons.IH [OF this] e show ?case
    by simp
qed

lemma process_history_returns:
  assumes "known_rules self"
  shows "\<exists>self'. process_history self lines = Inr self'"
proof -
  let ?start = "self\<lparr>total_lines := int (length lines),
                  malformed_removed := malformed_removed self + int (orphaned_lines lines)\<rparr>"
  from assms have "known_rules ?start"
    by (simp add: known_rules_def)
  from run_entries_returns [OF this] obtain end1
    where "run_entries ?start (entry_blobs lines []) = Inr end1"
    by blast
  then show ?thesis
    by (simp add: process_history_run_entries)
qed

subsection \<open>A second pass over the output\<close>

lemma rev_rstrip_newlines:
  "rev (rstrip_newlines l) = [] \<or>
   (\<exists>c cs. rev (rstrip_newlines l) = c # cs \<and> c \<noteq> CHR 0x0A \<and> c \<noteq> CHR 0x0D)"
proof (cases "dropWhile (\<lambda>c. c = CHR 0x0A \<or> c = CHR 0x0D) (rev l)")
  case Nil
  then show ?thesis
    by (simp add: rstrip_newlines_def)
next
  case (Cons c cs)
  then have "\<not> (c = CHR 0x0A \<or> c = CHR 0x0D)"
    using hd_dropWhile [of "\<lambda>c. c = CHR 0x0A \<or> c = CHR 0x0D" "rev l"] by simp
  with Cons show ?thesis
    by (simp add: rstrip_newlines_def)
qed

lemma rstrip_newlines_stable:
  assumes "rev entry = c # cs" and "c \<noteq> CHR 0x0A" and "c \<noteq> CHR 0x0D"
  shows "rstrip_newlines (entry @ [CHR 0x0A]) = entry"
proof -
  have "rev (dropWhile (\<lambda>c. c = CHR 0x0A \<or> c = CHR 0x0D) (rev entry)) = rev (rev entry)"
    unfolding assms(1) using assms(2,3) by simp
  then show ?thesis
    by (simp add: rstrip_newlines_def)
qed

lemma no_trailing_cr_start: "no_trailing_cr (rstrip_newlines l)"
  using rev_rstrip_newlines [of l]
  by (auto simp: no_trailing_cr_def)

lemma no_trailing_cr_continue:
  assumes "no_trailing_cr blob"
  shows "no_trailing_cr (blob @ [CHR 0x0A] @ rstrip_newlines l)"
  using rev_rstrip_newlines [of l] assms
  by (auto simp: no_trailing_cr_def)

lemma entry_blobs_no_trailing_cr:
  "current_entry = [] \<or> no_trailing_cr current_entry \<Longrightarrow>
   \<forall>blob\<in>set (entry_blobs ls current_entry). no_trailing_cr blob"
proof (induction ls arbitrary: current_entry)
  case Nil
  then show ?case by auto
next
  case (Cons l ls)
  show ?case
  proof (cases "is_entry_start (rstrip_newlines l)")
    case True
    from Cons.IH [of "rstrip_newlines l"] no_trailing_cr_start [of l]
    have "\<forall>blob\<in>set (entry_blobs ls (rstrip_newlines l)). no_trailing_cr blob"
      by blast
    with Cons.prems True show ?thesis
      by (auto simp: Let_def)
  next
    case False
    show ?thesis
    proof (cases "current_entry = []")
      case True
      with False Cons.IH [of "[]"] show ?thesis by simp
    next
      case nonempty: False
      with Cons.prems have "no_trailing_cr current_entry" by simp
      from no_trailing_cr_continue [OF this, of l]
        Cons.IH [of "current_entry @ [CHR 0x0A] @ rstrip_newlines l"]
      have "\<forall>blob\<in>set (entry_blobs ls (current_entry @ [CHR 0x0A] @ rstrip_newlines l)).
              no_trailing_cr blob"
        by blast
      with False nonempty show ?thesis by simp
    qed
  qed
qed

lemma prefix_conv_drop: "prefix p xs \<Longrightarrow> xs = p @ drop (length p) xs"
  by (auto simp: prefix_def)

lemma parse_history_entry_shape:
  assumes "parse_history_entry blob = Some (ts, cmd)"
  shows "blob = format_entry ts cmd \<or> blob = format_entry ts cmd @ [CHR 0x0A]"
proof -
  define rest where "rest = drop 2 blob"
  define d1 where "d1 = takeWhile isdigit rest"
  define r1 where "r1 = dropWhile isdigit rest"
  define r2 where "r2 = drop 1 r1"
  define d2 where "d2 = takeWhile isdigit r2"
  define r3 where "r3 = dropWhile isdigit r2"
  define r4 where "r4 = drop 1 r3"
  define after where "after = dropWhile (\<lambda>c. c \<noteq> CHR 0x0A) r4"
  have p: "parse_history_entry blob =
     (if prefix '': '' blob then
        if d1 \<noteq> [] \<and> prefix '':'' r1 then
          if d2 \<noteq> [] \<and> prefix '';'' r3 then
            if after = [] \<or> after = [CHR 0x0A]
            then Some (d1 @ '':'' @ d2, takeWhile (\<lambda>c. c \<noteq> CHR 0x0A) r4)
            else None
          else None
        else None
      else None)"
    unfolding parse_history_entry_def Let_def rest_def d1_def r1_def r2_def d2_def r3_def
      r4_def after_def ..
  from assms have a: "prefix '': '' blob"
    unfolding p by (simp split: if_splits)
  from assms a have b: "prefix '':'' r1"
    unfolding p by (simp split: if_splits)
  from assms a b have c: "prefix '';'' r3"
    unfolding p by (simp split: if_splits)
  from assms a b c have f: "after = [] \<or> after = [CHR 0x0A]"
    unfolding p by (simp split: if_splits)
  from assms a b c f have t: "ts = d1 @ '':'' @ d2"
    and m: "cmd = takeWhile (\<lambda>c. c \<noteq> CHR 0x0A) r4"
    unfolding p by (simp_all split: if_splits)
  have e1: "blob = '': '' @ rest"
    using prefix_conv_drop [OF a] by (simp add: rest_def numeral_2_eq_2)
  have e2: "r1 = '':'' @ r2"
    using prefix_conv_drop [OF b] by (simp add: r2_def)
  have e3: "r3 = '';'' @ r4"
    using prefix_conv_drop [OF c] by (simp add: r4_def)
  have e4: "rest = d1 @ r1"
    by (simp add: d1_def r1_def)
  have e5: "r2 = d2 @ r3"
    by (simp add: d2_def r3_def)
  have e6: "r4 = cmd @ after"
    by (simp add: m after_def)
  have "blob = '': '' @ d1 @ '':'' @ d2 @ '';'' @ cmd @ after"
    unfolding e1 e4 e2 e5 e3 e6 ..
  then have "blob = format_entry ts cmd @ after"
    by (simp add: format_entry_def t)
  with f show ?thesis
    by auto
qed

lemma kept_line_stable:
  assumes "parse_history_entry blob = Some (ts, cmd)" and "no_trailing_cr blob"
  shows "stable_line (format_entry ts cmd) \<and> entry_command (format_entry ts cmd) = cmd"
proof -
  let ?line = "format_entry ts cmd"
  have rt: "parse_history_entry ?line = Some (ts, cmd)"
    using assms(1) by (rule parse_format_round_trip)
  then have ec: "entry_command ?line = cmd"
    by (simp add: entry_command_def)
  have start: "is_entry_start ?line"
    by (simp add: is_entry_start_def format_entry_def)
  have nl: "CHR 0x0A \<notin> set cmd"
    using parse_history_entry_SomeD [OF assms(1)] by blast
  have ncr: "\<not> prefix [CHR 0x0D] (rev ?line)"
    using parse_history_entry_shape [OF assms(1)] assms(2)
    by (auto simp: no_trailing_cr_def)
  have "\<exists>c cs. rev ?line = c # cs \<and> c \<noteq> CHR 0x0A \<and> c \<noteq> CHR 0x0D"
  proof (cases cmd rule: rev_cases)
    case Nil
    then show ?thesis
      by (simp add: format_entry_def)
  next
    case (snoc xs x)
    with nl ncr show ?thesis
      by (auto simp: format_entry_def)
  qed
  then have "rstrip_newlines (?line @ [CHR 0x0A]) = ?line"
    using rstrip_newlines_stable by blast
  with start rt ec show ?thesis
    by (auto simp: stable_line_def)
qed

lemma survives_cong:
  assumes "allow_rules s = allow_rules t" and "ignore_rules s = ignore_rules t"
    and "max_command_length s = max_command_length t"
  shows "survives s seen entry = survives t seen entry"
  unfolding survives_def
    check_allow_rules_cong [OF assms(1)] check_ignore_rules_cong [OF assms(2)]
    is_command_worth_keeping_cong [OF assms] ..

lemma all_survive_cong:
  assumes "allow_rules s = allow_rules t" and "ignore_rules s = ignore_rules t"
    and "max_command_length s = max_command_length t"
  shows "all_survive s seen entries = all_survive t seen entries"
  by (induction entries arbitrary: seen) (simp_all add: survives_cong [OF assms])

lemma all_survive_snoc:
  "all_survive self seen (entries @ [entry]) =
     (all_survive self seen entries \<and>
      survives self (seen \<union> normalized_commands entries) entry)"
  by (induction entries arbitrary: seen) (simp_all add: normalized_commands_def)

lemma all_survive_stable:
  "all_survive self seen entries \<Longrightarrow> \<forall>entry\<in>set entries. stable_line entry"
  by (induction entries arbitrary: seen) (auto simp: survives_def)

lemma process_entry_effect:
  assumes "process_entry self blob = Inr (d, self')"
  shows "(cleaned_entries self' = cleaned_entries self \<and>
          seen_commands self' = seen_commands self)
       \<or> (\<exists>ts cmd. parse_history_entry blob = Some (ts, cmd) \<and>
            cleaned_entries self' = cleaned_entries self @ [format_entry ts cmd] \<and>
            seen_commands self' = insert (normalize_command cmd) (seen_commands self) \<and>
            check_allow_rules self cmd = Inr False \<and>
            (check_ignore_rules self cmd = Inr True \<or>
             (check_ignore_rules self cmd = Inr False \<and>
              (\<exists>reason. is_command_worth_keeping self cmd = Inr (True, reason)) \<and>
              normalize_command cmd \<notin> seen_commands self)))"
proof (cases "parse_history_entry blob")
  case None
  with assms show ?thesis
    by (auto simp: process_entry_def)
next
  case (Some p)
  obtain ts cmd where p: "p = (ts, cmd)"
    by (cases p)
  with Some have parsed: "parse_history_entry blob = Some (ts, cmd)"
    by simp
  show ?thesis
  proof (cases "check_allow_rules self cmd")
    case (Inl e)
    with assms parsed show ?thesis
      by (simp add: process_entry_def)
  next
    case allow: (Inr a)
    show ?thesis
    proof (cases a)
      case True
      with assms parsed allow show ?thesis
        by (auto simp: process_entry_def)
    next
      case False
      with allow have na: "check_allow_rules self cmd = Inr False"
        by simp
      show ?thesis
      proof (cases "check_ignore_rules self cmd")
        case (Inl e)
        with assms parsed na show ?thesis
          by (simp add: process_entry_def)
      next
        case ignore: (Inr i)
        show ?thesis
        proof (cases i)
          case True
          with ignore have "check_ignore_rules self cmd = Inr True"
            by simp
          from process_entry_IgnoreRuleMatch [OF parsed na this] assms parsed na this
          show ?thesis by auto
        next
          case False
          with ignore have ni: "check_ignore_rules self cmd = Inr False"
            by simp
          show ?thesis
          proof (cases "is_command_worth_keeping self cmd")
            case (Inl e)
            with assms parsed na ni show ?thesis
              by (simp add: process_entry_def)
          next
            case (Inr kr)
            obtain keep reason where kr: "kr = (keep, reason)"
              by (cases kr)
            show ?thesis
            proof (cases keep)
              case False
              with Inr kr have "is_command_worth_keeping self cmd = Inr (False, reason)"
                by simp
              from process_entry_not_kept [OF parsed na ni this] assms show ?thesis
                by (auto split: if_splits)
            next
              case True
              with Inr kr have w: "is_command_worth_keeping self cmd = Inr (True, reason)"
                by simp
              show ?thesis
              proof (cases "normalize_command cmd \<in> seen_commands self")
                case True
                from process_entry_Duplicate [OF parsed na ni w True] assms show ?thesis
                  by auto
              next
                case False
                from process_entry_Kept [OF parsed na ni w False] assms parsed na ni w False
                show ?thesis by auto
              qed
            qed
          qed
        qed
      qed
    qed
  qed
qed

lemma process_entry_output_survives:
  assumes "process_entry self blob = Inr (d, self')" and "no_trailing_cr blob"
    and "output_survives self"
  shows "output_survives self'"
proof -
  note cfg = process_entry_config [OF assms(1)]
  from cfg have c: "all_survive self' = all_survive self"
    using all_survive_cong [of self' self] by (simp add: fun_eq_iff)
  from process_entry_effect [OF assms(1)] show ?thesis
  proof
    assume "cleaned_entries self' = cleaned_entries self \<and>
            seen_commands self' = seen_commands self"
    with assms(3) c show ?thesis
      by (simp add: output_survives_def)
  next
    assume "\<exists>ts cmd. parse_history_entry blob = Some (ts, cmd) \<and>
            cleaned_entries self' = cleaned_entries self @ [format_entry ts cmd] \<and>
            seen_commands self' = insert (normalize_command cmd) (seen_commands self) \<and>
            check_allow_rules self cmd = Inr False \<and>
            (check_ignore_rules self cmd = Inr True \<or>
             (check_ignore_rules self cmd = Inr False \<and>
              (\<exists>reason. is_command_worth_keeping self cmd = Inr (True, reason)) \<and>
              normalize_command cmd \<notin> seen_commands self))"
    then obtain ts cmd where parsed: "parse_history_entry blob = Some (ts, cmd)"
      and out: "cleaned_entries self' = cleaned_entries self @ [format_entry ts cmd]"
      and seen: "seen_commands self' = insert (normalize_command cmd) (seen_commands self)"
      and na: "check_allow_rules self cmd = Inr False"
      and keep: "check_ignore_rules self cmd = Inr True \<or>
             (check_ignore_rules self cmd = Inr False \<and>
              (\<exists>reason. is_command_worth_keeping self cmd = Inr (True, reason)) \<and>
              normalize_command cmd \<notin> seen_commands self)"
      by blast
    from kept_line_stable [OF parsed assms(2)]
    have st: "stable_line (format_entry ts cmd)"
      and ec: "entry_command (format_entry ts cmd) = cmd"
      by simp_all
    from assms(3) have old: "all_survive self {} (cleaned_entries self)"
      and sub: "normalized_commands (cleaned_entries self) \<subseteq> seen_commands self"
      by (simp_all add: output_survives_def)
    have "survives self (normalized_commands (cleaned_entries self)) (format_entry ts cmd)"
      using st ec na keep sub by (auto simp: survives_def)
    with old have "all_survive self {} (cleaned_entries self @ [format_entry ts cmd])"
      by (simp add: all_survive_snoc)
    moreover have "normalized_commands (cleaned_entries self @ [format_entry ts cmd])
                     \<subseteq> insert (normalize_command cmd) (seen_commands self)"
      using sub ec by (auto simp: normalized_commands_def)
    ultimately show ?thesis
      using c out seen by (simp add: output_survives_def)
  qed
qed

lemma run_entries_output_survives:
  "run_entries self blobs = Inr self' \<Longrightarrow> \<forall>blob\<in>set blobs. no_trailing_cr blob \<Longrightarrow>
   output_survives self \<Longrightarrow> output_survives self'"
proof (induction blobs arbitrary: self)
  case Nil
  then show ?case by simp
next
  case (Cons blob blobs)
  from Cons.prems(1) obtain d self1
    where e: "process_entry self blob = Inr (d, self1)"
      and r: "run_entries self1 blobs = Inr self'"
    by (auto split: sum.splits)
  from Cons.prems(2) have "no_trailing_cr blob" and rest: "\<forall>b\<in>set blobs. no_trailing_cr b"
    by simp_all
  from process_entry_output_survives [OF e this(1) Cons.prems(3)] Cons.IH [OF r rest]
  show ?case by blast
qed

lemma run_entries_config:
  "run_entries self blobs = Inr self' \<Longrightarrow>
   allow_rules self' = allow_rules self \<and> ignore_rules self' = ignore_rules self
     \<and> max_command_length self' = max_command_length self"
proof (induction blobs arbitrary: self)
  case Nil
  then show ?case by simp
next
  case (Cons blob blobs)
  from Cons.prems obtain d self1
    where e: "process_entry self blob = Inr (d, self1)"
      and r: "run_entries self1 blobs = Inr self'"
    by (auto split: sum.splits)
  from process_entry_config [OF e] Cons.IH [OF r] show ?case
    by simp
qed

lemma run_entries_all_survive:
  "all_survive self (seen_commands self) entries \<Longrightarrow>
   \<exists>self'. run_entries self entries = Inr self' \<and>
           duplicates_removed self' = duplicates_removed self \<and>
           cleaned_entries self' = cleaned_entries self @ entries"
proof (induction entries arbitrary: self)
  case Nil
  then show ?case by simp
next
  case (Cons entry entries)
  let ?cmd = "entry_command entry"
  from Cons.prems have sv: "survives self (seen_commands self) entry"
    and rest: "all_survive self (insert (normalize_command ?cmd) (seen_commands self)) entries"
    by simp_all
  from sv obtain ts where parsed: "parse_history_entry entry = Some (ts, ?cmd)"
    and fmt: "format_entry ts ?cmd = entry"
    by (auto simp: survives_def stable_line_def)
  from sv have na: "check_allow_rules self ?cmd = Inr False"
    by (simp add: survives_def)
  from sv have "check_ignore_rules self ?cmd = Inr True \<or>
      (check_ignore_rules self ?cmd = Inr False \<and>
       (\<exists>reason. is_command_worth_keeping self ?cmd = Inr (True, reason)) \<and>
       normalize_command ?cmd \<notin> seen_commands self)"
    by (simp add: survives_def)
  then obtain d self1 where e: "process_entry self entry = Inr (d, self1)"
    and dup: "duplicates_removed self1 = duplicates_removed self"
    and out: "cleaned_entries self1 = cleaned_entries self @ [entry]"
    and seen: "seen_commands self1 = insert (normalize_command ?cmd) (seen_commands self)"
  proof
    assume i: "check_ignore_rules self ?cmd = Inr True"
    from process_entry_IgnoreRuleMatch [OF parsed na i] fmt that show ?thesis
      by simp
  next
    assume "check_ignore_rules self ?cmd = Inr False \<and>
       (\<exists>reason. is_command_worth_keeping self ?cmd = Inr (True, reason)) \<and>
       normalize_command ?cmd \<notin> seen_commands self"
    then obtain reason where ni: "check_ignore_rules self ?cmd = Inr False"
      and w: "is_command_worth_keeping self ?cmd = Inr (True, reason)"
      and new: "normalize_command ?cmd \<notin> seen_commands self"
      by blast
    from process_entry_Kept [OF parsed na ni w new] fmt that show ?thesis
      by simp
  qed
  from process_entry_config [OF e] rest seen
  have "all_survive self1 (seen_commands self1) entries"
    using all_survive_cong [of self1 self] by simp
  from Cons.IH [OF this] obtain self' where "run_entries self1 entries = Inr self'"
    and "duplicates_removed self' = duplicates_removed self1"
    and "cleaned_entries self' = cleaned_entries self1 @ entries"
    by blast
  with e dup out show ?case
    by simp
qed

lemma entry_blobs_written:
  "\<forall>entry\<in>set entries. stable_line entry \<Longrightarrow>
   entry_blobs (map (\<lambda>entry. entry @ [CHR 0x0A]) entries) current_entry =
     (if current_entry \<noteq> [] then current_entry # entries else entries)"
proof (induction entries arbitrary: current_entry)
  case Nil
  show ?case by simp
next
  case (Cons entry entries)
  from Cons.prems have s: "is_entry_start entry"
    and r: "rstrip_newlines (entry @ [CHR 0x0A]) = entry"
    by (simp_all add: stable_line_def)
  from s have "entry \<noteq> []"
    by (rule is_entry_start_nonempty)
  with Cons.IH [of entry] Cons.prems s r show ?case
    by simp
qed

lemma orphaned_lines_written:
  "\<forall>entry\<in>set entries. stable_line entry \<Longrightarrow>
   orphaned_lines (map (\<lambda>entry. entry @ [CHR 0x0A]) entries) = 0"
  by (cases entries) (simp_all add: stable_line_def)

text \<open>
  C8. When a run of \<open>process_history\<close> on a new cleaner object has returned, a second
  run with the same rule lists and the same \<open>max_command_length\<close>, on the lines that
  \<open>write_cleaned_history\<close> writes, returns with \<open>duplicates_removed = 0\<close>; it keeps
  every entry, so its output is the output of the first run.
\<close>

theorem second_pass_no_duplicates:
  assumes "process_history (ZshHistoryCleaner_init max_length ignores allows) lines = Inr self1"
  shows "\<exists>self2. process_history (ZshHistoryCleaner_init max_length ignores allows)
                   (write_cleaned_history self1) = Inr self2 \<and>
                 duplicates_removed self2 = 0 \<and>
                 cleaned_entries self2 = cleaned_entries self1"
proof -
  let ?init = "ZshHistoryCleaner_init max_length ignores allows"
  let ?start1 = "?init\<lparr>total_lines := int (length lines),
                   malformed_removed := malformed_removed ?init + int (orphaned_lines lines)\<rparr>"
  from assms obtain end1 where run1: "run_entries ?start1 (entry_blobs lines []) = Inr end1"
    and self1: "self1 = end1\<lparr>final_entries := int (length (cleaned_entries end1))\<rparr>"
    by (auto simp: process_history_run_entries split: sum.splits)
  have "output_survives ?start1"
    by (simp add: output_survives_def normalized_commands_def ZshHistoryCleaner_init_def)
  moreover have "\<forall>blob\<in>set (entry_blobs lines []). no_trailing_cr blob"
    by (rule entry_blobs_no_trailing_cr) simp
  ultimately have inv: "output_survives end1"
    using run_entries_output_survives [OF run1] by blast
  let ?out = "cleaned_entries end1"
  let ?lines2 = "write_cleaned_history self1"
  let ?start2 = "?init\<lparr>total_lines := int (length ?lines2),
                   malformed_removed := malformed_removed ?init + int (orphaned_lines ?lines2)\<rparr>"
  have lines2: "?lines2 = map (\<lambda>entry. entry @ [CHR 0x0A]) ?out"
    by (simp add: write_cleaned_history_def self1)
  from inv have all1: "all_survive end1 {} ?out"
    by (simp add: output_survives_def)
  then have stable: "\<forall>entry\<in>set ?out. stable_line entry"
    by (rule all_survive_stable)
  from run_entries_config [OF run1] have "all_survive ?start2 = all_survive end1"
    using all_survive_cong [of ?start2 end1] by (simp add: fun_eq_iff)
  with all1 have "all_survive ?start2 (seen_commands ?start2) ?out"
    by (simp add: ZshHistoryCleaner_init_def)
  from run_entries_all_survive [OF this] obtain end2
    where run2: "run_entries ?start2 ?out = Inr end2"
      and dup: "duplicates_removed end2 = duplicates_removed ?start2"
      and out: "cleaned_entries end2 = cleaned_entries ?start2 @ ?out"
    by blast
  have blobs2: "entry_blobs ?lines2 [] = ?out"
    unfolding lines2 using entry_blobs_written [OF stable, of "[]"] by simp
  have "process_history ?init ?lines2
          = Inr (end2\<lparr>final_entries := int (length (cleaned_entries end2))\<rparr>)"
    unfolding process_history_run_entries blobs2 run2 by simp
  moreover have "duplicates_removed end2 = 0"
    using dup by (simp add: ZshHistoryCleaner_init_def)
  moreover have "cleaned_entries end2 = cleaned_entries self1"
    using out by (simp add: ZshHistoryCleaner_init_def self1)
  ultimately show ?thesis
    by simp
qed

theorem second_pass_no_duplicates_witness:
  "process_history (ZshHistoryCleaner_init 500 [] [])
     ['': 111:0;echo hi\<newline>'', '': 111:0;echo hi\<newline>'']
     = Inr ((ZshHistoryCleaner_init 500 [] [])
             \<lparr>total_lines := 2, valid_entries := 2, duplicates_removed := 1,
              seen_commands := {''echo hi''}, cleaned_entries := ['': 111:0;echo hi''],
              final_entries := 1\<rparr>)
   \<and> (\<exists>self2. process_history (ZshHistoryCleaner_init 500 [] []) ['': 111:0;echo hi\<newline>'']
                   = Inr self2 \<and>
               duplicates_removed self2 = 0 \<and>
               cleaned_entries self2 = ['': 111:0;echo hi''])"
proof -
  have r: "rstrip_newlines '': 111:0;echo hi\<newline>'' = '': 111:0;echo hi''"
    by code_simp
  have s: "is_entry_start '': 111:0;echo hi''"
    by code_simp
  have p: "parse_history_entry '': 111:0;echo hi'' = Some (''111:0'', ''echo hi'')"
    by code_simp
  have st: "strip ''echo hi'' = ''echo hi''"
    by code_simp
  have n: "normalize_command ''echo hi'' = ''echo hi''"
    by code_simp
  have f: "format_entry ''111:0'' ''echo hi'' = '': 111:0;echo hi''"
    by code_simp
  have x: "\<not> list_ex (\<lambda>search. search ''echo hi'') repetitive_patterns"
    by code_simp
  have run: "process_history (ZshHistoryCleaner_init 500 [] [])
     ['': 111:0;echo hi\<newline>'', '': 111:0;echo hi\<newline>'']
     = Inr ((ZshHistoryCleaner_init 500 [] [])
             \<lparr>total_lines := 2, valid_entries := 2, duplicates_removed := 1,
              seen_commands := {''echo hi''}, cleaned_entries := ['': 111:0;echo hi''],
              final_entries := 1\<rparr>)"
    using r s p st n f x
    by (simp add: process_history_def ZshHistoryCleaner_init_def process_entry_def
        check_allow_rules_def check_ignore_rules_def is_command_worth_keeping_def)
  from second_pass_no_duplicates [OF run] run show ?thesis
    by (simp add: write_cleaned_history_def)
qed

subsection \<open>Newlines in blobs and in the output\<close>

lemma format_entry_no_newline:
  assumes "parse_history_entry blob = Some (ts, cmd)"
  shows "CHR 0x0A \<notin> set (format_entry ts cmd)"
proof -
  from parse_history_entry_SomeD [OF assms] obtain d1 d2
    where ts: "ts = d1 @ '':'' @ d2"
      and d: "\<forall>c\<in>set d1. isdigit c" "\<forall>c\<in>set d2. isdigit c"
      and cmd: "CHR 0x0A \<notin> set cmd"
    by blast
  have "\<not> isdigit (CHR 0x0A)"
    by (simp add: isdigit_def)
  with d have "CHR 0x0A \<notin> set d1" "CHR 0x0A \<notin> set d2"
    by blast+
  with ts cmd show ?thesis
    by (simp add: format_entry_def)
qed

text \<open>
  An entry blob with a continuation line that is not empty never parses: the loop of
  \<open>process_history\<close> counts every such entry as malformed.
\<close>

lemma multi_line_blob_malformed:
  assumes "continuation \<noteq> []"
  shows "parse_history_entry (first_line @ [CHR 0x0A] @ continuation) = None"
proof (cases "parse_history_entry (first_line @ [CHR 0x0A] @ continuation)")
  case None
  then show ?thesis .
next
  case (Some p)
  obtain ts cmd where "p = (ts, cmd)"
    by (cases p)
  with Some have parsed:
    "parse_history_entry (first_line @ [CHR 0x0A] @ continuation) = Some (ts, cmd)"
    by simp
  note nl = format_entry_no_newline [OF parsed]
  from parse_history_entry_shape [OF parsed] have False
  proof
    assume "first_line @ [CHR 0x0A] @ continuation = format_entry ts cmd"
    then have "CHR 0x0A \<in> set (format_entry ts cmd)"
      by (metis in_set_conv_decomp append_Cons append_Nil)
    with nl show False ..
  next
    assume e: "first_line @ [CHR 0x0A] @ continuation = format_entry ts cmd @ [CHR 0x0A]"
    from assms obtain xs x where c: "continuation = xs @ [x]"
      by (cases continuation rule: rev_cases) auto
    with e have "(first_line @ [CHR 0x0A] @ xs) @ [x] = format_entry ts cmd @ [CHR 0x0A]"
      by simp
    then have "first_line @ [CHR 0x0A] @ xs = format_entry ts cmd"
      by (simp only: append1_eq_conv)
    then have "CHR 0x0A \<in> set (format_entry ts cmd)"
      by (metis in_set_conv_decomp append_Cons append_Nil)
    with nl show False ..
  qed
  then show ?thesis ..
qed

text \<open>
  The lines of the output hold no newline, and no carriage return when the input
  lines hold none (lines read in text mode hold none): written with a newline after
  each and read again, they are the lines \<open>write_cleaned_history\<close> gives.
\<close>

lemma process_entry_output_chars:
  assumes "process_entry self blob = Inr (d, self')"
    and "\<forall>entry\<in>set (cleaned_entries self). c \<notin> set entry"
    and "c \<noteq> CHR 0x0A \<longrightarrow> c \<notin> set blob"
  shows "\<forall>entry\<in>set (cleaned_entries self'). c \<notin> set entry"
proof -
  from process_entry_effect [OF assms(1)] show ?thesis
  proof
    assume "cleaned_entries self' = cleaned_entries self \<and>
            seen_commands self' = seen_commands self"
    with assms(2) show ?thesis by simp
  next
    assume "\<exists>ts cmd. parse_history_entry blob = Some (ts, cmd) \<and>
            cleaned_entries self' = cleaned_entries self @ [format_entry ts cmd] \<and>
            seen_commands self' = insert (normalize_command cmd) (seen_commands self) \<and>
            check_allow_rules self cmd = Inr False \<and>
            (check_ignore_rules self cmd = Inr True \<or>
             (check_ignore_rules self cmd = Inr False \<and>
              (\<exists>reason. is_command_worth_keeping self cmd = Inr (True, reason)) \<and>
              normalize_command cmd \<notin> seen_commands self))"
    then obtain ts cmd where parsed: "parse_history_entry blob = Some (ts, cmd)"
      and out: "cleaned_entries self' = cleaned_entries self @ [format_entry ts cmd]"
      by blast
    from parse_history_entry_shape [OF parsed]
    have "set (format_entry ts cmd) \<subseteq> set blob"
      by auto
    with assms(3) format_entry_no_newline [OF parsed] have "c \<notin> set (format_entry ts cmd)"
      by (cases "c = CHR 0x0A") auto
    with assms(2) out show ?thesis by simp
  qed
qed

lemma run_entries_output_chars:
  "run_entries self blobs = Inr self' \<Longrightarrow>
   \<forall>entry\<in>set (cleaned_entries self). c \<notin> set entry \<Longrightarrow>
   \<forall>blob\<in>set blobs. c \<noteq> CHR 0x0A \<longrightarrow> c \<notin> set blob \<Longrightarrow>
   \<forall>entry\<in>set (cleaned_entries self'). c \<notin> set entry"
proof (induction blobs arbitrary: self)
  case Nil
  then show ?case by simp
next
  case (Cons blob blobs)
  from Cons.prems(1) obtain d self1
    where e: "process_entry self blob = Inr (d, self1)"
      and r: "run_entries self1 blobs = Inr self'"
    by (auto split: sum.splits)
  from Cons.prems(3) have b: "c \<noteq> CHR 0x0A \<longrightarrow> c \<notin> set blob"
    and rest: "\<forall>blob\<in>set blobs. c \<noteq> CHR 0x0A \<longrightarrow> c \<notin> set blob"
    by simp_all
  from process_entry_output_chars [OF e Cons.prems(2) b] Cons.IH [OF r _ rest]
  show ?case by blast
qed

lemma set_rstrip_newlines: "set (rstrip_newlines l) \<subseteq> set l"
  using set_dropWhileD [of _ "\<lambda>c. c = CHR 0x0A \<or> c = CHR 0x0D" "rev l"]
  by (auto simp: rstrip_newlines_def)

lemma entry_blobs_no_cr:
  "\<forall>l\<in>set ls. CHR 0x0D \<notin> set l \<Longrightarrow> CHR 0x0D \<notin> set current_entry \<Longrightarrow>
   \<forall>blob\<in>set (entry_blobs ls current_entry). CHR 0x0D \<notin> set blob"
proof (induction ls arbitrary: current_entry)
  case Nil
  then show ?case by simp
next
  case (Cons l ls)
  from Cons.prems(1) set_rstrip_newlines [of l] have l: "CHR 0x0D \<notin> set (rstrip_newlines l)"
    by auto
  from Cons.prems(1) have ls: "\<forall>l\<in>set ls. CHR 0x0D \<notin> set l"
    by simp
  from l Cons.prems(2)
  have "CHR 0x0D \<notin> set (current_entry @ [CHR 0x0A] @ rstrip_newlines l)"
    by simp
  with Cons.IH [OF ls l] Cons.IH [OF ls this] Cons.IH [OF ls Cons.prems(2)] Cons.prems(2)
  show ?case
    by (auto simp: Let_def)
qed

lemma output_lines_no_newline:
  assumes "process_history (ZshHistoryCleaner_init max_length ignores allows) lines = Inr self1"
  shows "\<forall>entry\<in>set (cleaned_entries self1). CHR 0x0A \<notin> set entry"
proof -
  let ?init = "ZshHistoryCleaner_init max_length ignores allows"
  let ?start = "?init\<lparr>total_lines := int (length lines),
                  malformed_removed := malformed_removed ?init + int (orphaned_lines lines)\<rparr>"
  from assms obtain end1 where run: "run_entries ?start (entry_blobs lines []) = Inr end1"
    and self1: "self1 = end1\<lparr>final_entries := int (length (cleaned_entries end1))\<rparr>"
    by (auto simp: process_history_run_entries split: sum.splits)
  have "\<forall>entry\<in>set (cleaned_entries ?start). CHR 0x0A \<notin> set entry"
    by (simp add: ZshHistoryCleaner_init_def)
  from run_entries_output_chars [OF run this] self1 show ?thesis
    by simp
qed

lemma output_lines_no_cr:
  assumes "process_history (ZshHistoryCleaner_init max_length ignores allows) lines = Inr self1"
    and "\<forall>l\<in>set lines. CHR 0x0D \<notin> set l"
  shows "\<forall>entry\<in>set (cleaned_entries self1). CHR 0x0D \<notin> set entry"
proof -
  let ?init = "ZshHistoryCleaner_init max_length ignores allows"
  let ?start = "?init\<lparr>total_lines := int (length lines),
                  malformed_removed := malformed_removed ?init + int (orphaned_lines lines)\<rparr>"
  from assms(1) obtain end1 where run: "run_entries ?start (entry_blobs lines []) = Inr end1"
    and self1: "self1 = end1\<lparr>final_entries := int (length (cleaned_entries end1))\<rparr>"
    by (auto simp: process_history_run_entries split: sum.splits)
  have a: "\<forall>entry\<in>set (cleaned_entries ?start). CHR 0x0D \<notin> set entry"
    by (simp add: ZshHistoryCleaner_init_def)
  have "\<forall>blob\<in>set (entry_blobs lines []). CHR 0x0D \<notin> set blob"
    by (rule entry_blobs_no_cr [OF assms(2)]) simp
  then have b: "\<forall>blob\<in>set (entry_blobs lines []).
                  CHR 0x0D \<noteq> CHR 0x0A \<longrightarrow> CHR 0x0D \<notin> set blob"
    by blast
  from run_entries_output_chars [OF run a b] have "\<forall>entry\<in>set (cleaned_entries end1). CHR 0x0D \<notin> set entry" .
  then show ?thesis
    unfolding self1 by simp
qed

subsection \<open>Runs on concrete inputs\<close>

text \<open>
  C1, on the code. The two lines \<open>": 5:0;echo \"\<close> and \<open>": not-a-new-entry"\<close> are
  joined by the loop into one blob with an embedded newline, and \<open>parse_history_entry\<close>
  rejects that blob: the run counts it in \<open>malformed_removed\<close>, there is no valid
  entry and nothing is kept. So it is for every blob with a continuation line that is
  not empty (\<open>multi_line_blob_malformed\<close>).
\<close>

theorem continuation_entry_malformed:
  "entry_blobs continued_input [] = [continued_blob]
   \<and> parse_history_entry continued_blob = None
   \<and> process_history (ZshHistoryCleaner_init 500 [] []) continued_input
       = Inr ((ZshHistoryCleaner_init 500 [] [])\<lparr>total_lines := 2, malformed_removed := 1\<rparr>)"
proof -
  have r1: "rstrip_newlines ('': 5:0;echo '' @ [CHR 0x5C, CHR 0x0A]) = '': 5:0;echo '' @ [CHR 0x5C]"
    by code_simp
  have r2: "rstrip_newlines '': not-a-new-entry\<newline>'' = '': not-a-new-entry''"
    by code_simp
  have s1: "is_entry_start ('': 5:0;echo '' @ [CHR 0x5C])"
    by code_simp
  have s2: "\<not> is_entry_start '': not-a-new-entry''"
    by code_simp
  have p: "parse_history_entry continued_blob = None"
    by code_simp
  have b: "entry_blobs continued_input [] = [continued_blob]"
    by code_simp
  have p': "parse_history_entry ('': 5:0;echo '' @ [CHR 0x5C] @ [CHR 0x0A] @ '': not-a-new-entry'') = None"
    using p by (simp add: continued_blob_def)
  have "process_history (ZshHistoryCleaner_init 500 [] []) continued_input
       = Inr ((ZshHistoryCleaner_init 500 [] [])\<lparr>total_lines := 2, malformed_removed := 1\<rparr>)"
    using r1 r2 s1 s2 p'
    by (simp add: process_history_def continued_input_def ZshHistoryCleaner_init_def
        process_entry_def)
  with p b show ?thesis by simp
qed

text \<open>
  C4, on the code. The command \<open>" git commit -m x"\<close> matches the force-keep rule
  \<open>starts_with "git commit"\<close> only after trimming. \<open>_process_entry\<close> checks the rules on
  the untrimmed command, so the entry is not decided \<open>IgnoreRuleMatch\<close>; it reaches
  the duplicate check and is dropped there, after the same command without the
  leading blank was kept.
\<close>

theorem trimmed_force_keep_duplicate:
  "strip '' git commit -m x'' = ''git commit -m x''
   \<and> check_ignore_rules (ZshHistoryCleaner_init 500 [keep_git_commit] []) ''git commit -m x'' = Inr True
   \<and> process_history (ZshHistoryCleaner_init 500 [keep_git_commit] [])
        ['': 1:0;git commit -m x\<newline>'', '': 2:0; git commit -m x\<newline>'']
       = Inr ((ZshHistoryCleaner_init 500 [keep_git_commit] [])
               \<lparr>total_lines := 2, valid_entries := 2, ignored_kept := 1,
                duplicates_removed := 1, seen_commands := {''git commit -m x''},
                cleaned_entries := ['': 1:0;git commit -m x''], final_entries := 1\<rparr>)"
proof -
  have r1: "rstrip_newlines '': 1:0;git commit -m x\<newline>'' = '': 1:0;git commit -m x''"
    by code_simp
  have r2: "rstrip_newlines '': 2:0; git commit -m x\<newline>'' = '': 2:0; git commit -m x''"
    by code_simp
  have s1: "is_entry_start '': 1:0;git commit -m x''"
    by code_simp
  have s2: "is_entry_start '': 2:0; git commit -m x''"
    by code_simp
  have p1: "parse_history_entry '': 1:0;git commit -m x'' = Some (''1:0'', ''git commit -m x'')"
    by code_simp
  have p2: "parse_history_entry '': 2:0; git commit -m x'' = Some (''2:0'', '' git commit -m x'')"
    by code_simp
  have i1: "any_rule_matches [keep_git_commit] ''git commit -m x'' = Inr True"
    by code_simp
  have i2: "any_rule_matches [keep_git_commit] '' git commit -m x'' = Inr False"
    by code_simp
  have st: "strip '' git commit -m x'' = ''git commit -m x''"
    by code_simp
  have n1: "normalize_command ''git commit -m x'' = ''git commit -m x''"
    by code_simp
  have n2: "normalize_command '' git commit -m x'' = ''git commit -m x''"
    by code_simp
  have f1: "format_entry ''1:0'' ''git commit -m x'' = '': 1:0;git commit -m x''"
    by code_simp
  have "process_history (ZshHistoryCleaner_init 500 [keep_git_commit] [])
        ['': 1:0;git commit -m x\<newline>'', '': 2:0; git commit -m x\<newline>'']
       = Inr ((ZshHistoryCleaner_init 500 [keep_git_commit] [])
               \<lparr>total_lines := 2, valid_entries := 2, ignored_kept := 1,
                duplicates_removed := 1, seen_commands := {''git commit -m x''},
                cleaned_entries := ['': 1:0;git commit -m x''], final_entries := 1\<rparr>)"
    using r1 r2 s1 s2 p1 p2 i1 i2 st n1 n2 f1
    by (simp add: process_history_def ZshHistoryCleaner_init_def process_entry_def
        check_allow_rules_def check_ignore_rules_def is_command_worth_keeping_def)
  with st i1 show ?thesis by (simp add: check_ignore_rules_def ZshHistoryCleaner_init_def)
qed

end
